theory Spec2Isabelle
  imports Complex_Main "HOL-Library.Word" "HOL-Library.Multiset"
begin

section \<open>Data model\<close>

text \<open>
  Go's \<open>int64\<close> is a 64-bit word: \<open>+\<close> and \<open>-\<close> wrap around, and the comparisons
  of the source are the signed ones (\<open><s\<close>, \<open>\<le>s\<close>).
\<close>

type_synonym int64 = "64 word"

record Process =
  ProcessID :: int64
  ArrivalTime :: int64
  BurstDuration :: int64
  Priority :: int64

record TimeSlice =
  PID :: int64
  Start :: int64
  Stop :: int64

text \<open>
  A run-time panic of Go. Both panics the schedulers can raise are index errors: an index
  and the length of the slice it missed.
\<close>

datatype panic = IndexOutOfRange int nat

subsection \<open>float64\<close>

text \<open>
  A \<open>float64\<close> is represented by the real number it denotes, or by one of the three
  special values. Rounding is not represented: a sum of converted \<open>int64\<close> values is
  exact below \<open>2 ^ 53\<close>, and the quotients the properties below look at are either exact
  (\<open>5 / 2\<close>), or only their integer part matters. No negative zero arises: every zero
  is a converted integer \<open>0\<close> or a sum.
\<close>

datatype float64 = Finite real | PosInf | NegInf | NaN

definition float64_of_int64 :: "int64 \<Rightarrow> float64" where
  "float64_of_int64 w = Finite (real_of_int (sint w))"

definition float64_of_len :: "nat \<Rightarrow> float64" where
  "float64_of_len n = Finite (real n)"

fun fadd :: "float64 \<Rightarrow> float64 \<Rightarrow> float64" where
  "fadd (Finite a) (Finite b) = Finite (a + b)"
| "fadd NaN _ = NaN"
| "fadd _ NaN = NaN"
| "fadd PosInf NegInf = NaN"
| "fadd NegInf PosInf = NaN"
| "fadd PosInf _ = PosInf"
| "fadd _ PosInf = PosInf"
| "fadd NegInf _ = NegInf"
| "fadd _ NegInf = NegInf"

text \<open>Division never panics on \<open>float64\<close>: \<open>0 / 0\<close> is NaN, \<open>x / 0\<close> an infinity.\<close>

fun fdiv :: "float64 \<Rightarrow> float64 \<Rightarrow> float64" where
  "fdiv (Finite a) (Finite b) =
     (if b = 0 then (if a = 0 then NaN else if 0 < a then PosInf else NegInf)
      else Finite (a / b))"
| "fdiv NaN _ = NaN"
| "fdiv _ NaN = NaN"
| "fdiv (Finite a) _ = Finite 0"
| "fdiv PosInf (Finite b) = (if b < 0 then NegInf else PosInf)"
| "fdiv NegInf (Finite b) = (if b < 0 then PosInf else NegInf)"
| "fdiv _ _ = NaN"

subsection \<open>fmt.Sprint on an int64\<close>

fun digits10 :: "nat \<Rightarrow> string" where
  "digits10 n =
     (if n < 10 then [''0123456789'' ! n]
      else digits10 (n div 10) @ [''0123456789'' ! (n mod 10)])"

declare digits10.simps [simp del]

definition Sprint :: "int64 \<Rightarrow> string" where
  "Sprint w =
     (if sint w < 0 then CHR ''-'' # digits10 (nat (- sint w)) else digits10 (nat (sint w)))"

section \<open>The schedulers' variables and results\<close>

text \<open>
  \<open>PriorityProcess\<close> of the source: a process and the key the ready queue orders it by
  (Go's \<open>int\<close>, 64 bits wide on the platforms the program is built for).
\<close>

record PriorityProcess =
  pp_Process :: Process
  pp_Priority :: int64

type_synonym PriorityQueue = "PriorityProcess list"

text \<open>
  The function-level variables of a scheduler. The four schedulers declare the same
  accumulators; \<open>waitingTime\<close> is function-level in all but \<open>RRSchedule\<close>,
  \<open>processCounter\<close> belongs to the three that admit processes, \<open>readyQueue\<close> to the two
  shortest-job schedulers and \<open>queue\<close> to \<open>RRSchedule\<close>. A scheduler leaves the fields it
  does not declare untouched. A row of \<open>schedule\<close> that was never assigned is Go's nil
  slice, \<open>[]\<close> here.
\<close>

record vars =
  serviceTime :: int64
  totalWait :: float64
  totalTurnaround :: float64
  lastCompletion :: float64
  waitingTime :: int64
  schedule :: "string list list"
  gantt :: "TimeSlice list"
  processCounter :: nat
  readyQueue :: PriorityQueue
  queue :: "Process list"

definition init_vars :: "nat \<Rightarrow> vars" where
  "init_vars n =
     \<lparr> serviceTime = 0, totalWait = Finite 0, totalTurnaround = Finite 0,
       lastCompletion = Finite 0, waitingTime = 0, schedule = replicate n [],
       gantt = [], processCounter = 0, readyQueue = [], queue = [] \<rparr>"

text \<open>
  What a scheduler hands to \<open>outputGantt\<close> and \<open>outputSchedule\<close> (the printing itself is
  not modelled), and the contents of the caller's \<open>processes\<close> slice when it returns.
\<close>

record Output =
  out_gantt :: "TimeSlice list"
  out_schedule :: "string list list"
  aveWait :: float64
  aveTurnaround :: float64
  aveThroughput :: float64
  processes_after :: "Process list"

definition finish :: "Process list \<Rightarrow> vars \<Rightarrow> Output" where
  "finish processes v =
     (let count = float64_of_len (length processes) in
      \<lparr> out_gantt = gantt v, out_schedule = schedule v,
        aveWait = fdiv (totalWait v) count,
        aveTurnaround = fdiv (totalTurnaround v) count,
        aveThroughput = fdiv count (lastCompletion v),
        processes_after = processes \<rparr>)"

section \<open>FCFSSchedule\<close>

definition FCFS_body :: "Process list \<Rightarrow> vars \<Rightarrow> nat \<Rightarrow> vars" where
  "FCFS_body processes v i =
     (let p = processes ! i;
          waitingTime' = (if 0 <s ArrivalTime p then serviceTime v - ArrivalTime p
                          else waitingTime v);
          start = waitingTime' + ArrivalTime p;
          turnaround = BurstDuration p + waitingTime';
          completion = BurstDuration p + ArrivalTime p + waitingTime';
          serviceTime' = serviceTime v + BurstDuration p
      in v \<lparr> serviceTime := serviceTime',
             totalWait := fadd (totalWait v) (float64_of_int64 waitingTime'),
             totalTurnaround := fadd (totalTurnaround v) (float64_of_int64 turnaround),
             lastCompletion := float64_of_int64 completion,
             waitingTime := waitingTime',
             schedule := (schedule v)
               [i := [Sprint (ProcessID p), Sprint (Priority p), Sprint (BurstDuration p),
                      Sprint (ArrivalTime p), Sprint waitingTime', Sprint turnaround,
                      Sprint completion]],
             gantt := gantt v @ [\<lparr> PID = ProcessID p, Start = start, Stop = serviceTime' \<rparr>] \<rparr>)"

text \<open>The state after the first \<open>k\<close> iterations of the loop over \<open>range processes\<close>.\<close>

definition FCFS_upto :: "Process list \<Rightarrow> nat \<Rightarrow> vars" where
  "FCFS_upto processes k = foldl (FCFS_body processes) (init_vars (length processes)) [0..<k]"

definition FCFSSchedule :: "Process list \<Rightarrow> panic + Output" where
  "FCFSSchedule processes = Inr (finish processes (FCFS_upto processes (length processes)))"

section \<open>RRSchedule\<close>

text \<open>The helpers \<open>min\<close> and \<open>max\<close> of the source, on \<open>int64\<close>.\<close>

definition min_int64 :: "int64 \<Rightarrow> int64 \<Rightarrow> int64" where
  "min_int64 a b = (if a <s b then a else b)"

definition max_int64 :: "int64 \<Rightarrow> int64 \<Rightarrow> int64" where
  "max_int64 a b = (if b <s a then a else b)"

definition quantum :: int64 where
  "quantum = 1"

function RR_admit :: "Process list \<Rightarrow> vars \<Rightarrow> vars" where
  "RR_admit processes v =
     (if processCounter v < length processes \<and>
         ArrivalTime (processes ! processCounter v) \<le>s serviceTime v
      then RR_admit processes
             (v \<lparr> queue := queue v @ [processes ! processCounter v],
                  processCounter := processCounter v + 1 \<rparr>)
      else v)"
  by pat_completeness auto
termination
  by (relation "measure (\<lambda>(processes, v). length processes - processCounter v)") auto

declare RR_admit.simps [simp del]

definition RR_dispatch :: "vars \<Rightarrow> Process \<Rightarrow> panic + vars" where
  "RR_dispatch v currentProcess =
     (let timeSlice = min_int64 quantum (BurstDuration currentProcess);
          start = max_int64 (serviceTime v) (ArrivalTime currentProcess);
          turnaround = timeSlice + max_int64 0 (start - ArrivalTime currentProcess);
          completion = start + timeSlice;
          waitingTime' = max_int64 0 (start - ArrivalTime currentProcess);
          remainingBurst = BurstDuration currentProcess - timeSlice;
          idx = sint (ProcessID currentProcess - 1)
      in if 0 \<le> idx \<and> idx < int (length (schedule v)) then
           Inr (v \<lparr> totalTurnaround := fadd (totalTurnaround v) (float64_of_int64 turnaround),
                     lastCompletion := float64_of_int64 completion,
                     totalWait := fadd (totalWait v) (float64_of_int64 waitingTime'),
                     schedule := (schedule v)
                       [nat idx := [Sprint (ProcessID currentProcess),
                                    Sprint (Priority currentProcess), Sprint timeSlice,
                                    Sprint start, Sprint waitingTime', Sprint turnaround,
                                    Sprint completion]],
                     gantt := gantt v @
                       [\<lparr> PID = ProcessID currentProcess, Start = start, Stop = completion \<rparr>],
                     queue := (if 0 <s remainingBurst
                               then queue v @ [currentProcess \<lparr> BurstDuration := remainingBurst \<rparr>]
                               else queue v),
                     serviceTime := completion \<rparr>)
         else Inl (IndexOutOfRange idx (length (schedule v))))"

text \<open>
  Termination of the loop of \<open>RRSchedule\<close>: every dispatch uses up one of the dispatches
  the queued and the not yet admitted processes still need, and an idle tick brings the
  clock one unit closer to the next arrival.
\<close>

definition need :: "Process \<Rightarrow> nat" where
  "need p = (if 1 <s BurstDuration p then nat (sint (BurstDuration p)) else 1)"

definition work :: "Process list \<Rightarrow> vars \<Rightarrow> nat" where
  "work processes v =
     sum_list (map need (queue v)) + sum_list (map need (drop (processCounter v) processes))"

definition idle :: "Process list \<Rightarrow> vars \<Rightarrow> nat" where
  "idle processes v =
     (if processCounter v < length processes
      then nat (sint (ArrivalTime (processes ! processCounter v)) - sint (serviceTime v))
      else 0)"

lemma RR_admit_step:
  "processCounter v < length ps \<Longrightarrow> ArrivalTime (ps ! processCounter v) \<le>s serviceTime v \<Longrightarrow>
   RR_admit ps v = RR_admit ps (v \<lparr> queue := queue v @ [ps ! processCounter v],
                  processCounter := processCounter v + 1 \<rparr>)"
  by (subst RR_admit.simps) simp

lemma RR_admit_stop:
  "\<not> (processCounter v < length ps \<and> ArrivalTime (ps ! processCounter v) \<le>s serviceTime v) \<Longrightarrow>
   RR_admit ps v = v"
  by (subst RR_admit.simps) auto

lemma work_admit: "work ps (RR_admit ps v) = work ps v"
proof (induction ps v rule: RR_admit.induct)
  case (1 ps v)
  show ?case
  proof (cases "processCounter v < length ps \<and> ArrivalTime (ps ! processCounter v) \<le>s serviceTime v")
    case True
    then have "work ps (RR_admit ps v) = work ps (v \<lparr> queue := queue v @ [ps ! processCounter v],
                  processCounter := processCounter v + 1 \<rparr>)"
      using 1 by (simp add: RR_admit_step)
    also have "\<dots> = work ps v"
      using True by (simp add: work_def Cons_nth_drop_Suc [symmetric])
    finally show ?thesis .
  next
    case False
    then show ?thesis by (simp add: RR_admit_stop)
  qed
qed

lemma admit_queue_mono: "length (queue v) \<le> length (queue (RR_admit ps v))"
proof (induction ps v rule: RR_admit.induct)
  case (1 ps v)
  show ?case
  proof (cases "processCounter v < length ps \<and> ArrivalTime (ps ! processCounter v) \<le>s serviceTime v")
    case True
    then show ?thesis using 1 by (simp add: RR_admit_step)
  next
    case False
    then show ?thesis by (simp add: RR_admit_stop)
  qed
qed

lemma admit_empty:
  assumes "queue (RR_admit ps v) = []"
  shows "RR_admit ps v = v \<and>
         \<not> (processCounter v < length ps \<and> ArrivalTime (ps ! processCounter v) \<le>s serviceTime v)"
proof (cases "processCounter v < length ps \<and> ArrivalTime (ps ! processCounter v) \<le>s serviceTime v")
  case True
  define v' where "v' = v \<lparr> queue := queue v @ [ps ! processCounter v],
                             processCounter := processCounter v + 1 \<rparr>"
  have "RR_admit ps v = RR_admit ps v'"
    using True by (simp add: RR_admit_step v'_def)
  moreover have "length (queue v') \<le> length (queue (RR_admit ps v'))"
    by (rule admit_queue_mono)
  moreover have "0 < length (queue v')"
    by (simp add: v'_def)
  ultimately show ?thesis using assms by simp
next
  case False
  then show ?thesis by (simp add: RR_admit_stop)
qed

lemma sint_bounds64: "- 9223372036854775808 \<le> sint (x::int64) \<and> sint x < 9223372036854775808"
  using sint_ge [of x] sint_lt [of x] by simp

lemma sint_add_no_wrap:
  "- 9223372036854775808 \<le> sint (a::int64) + sint b \<Longrightarrow> sint a + sint b < 9223372036854775808 \<Longrightarrow>
   sint (a + b) = sint a + sint b"
  by (simp add: sint_word_ariths signed_take_bit_int_eq_self)

lemma sint_sub_no_wrap:
  "- 9223372036854775808 \<le> sint (a::int64) - sint b \<Longrightarrow> sint a - sint b < 9223372036854775808 \<Longrightarrow>
   sint (a - b) = sint a - sint b"
  by (simp add: sint_word_ariths signed_take_bit_int_eq_self)

lemma sint_dec: "1 <s (b::int64) \<Longrightarrow> sint (b - 1) = sint b - 1"
  using sint_bounds64 [of b] sint_sub_no_wrap [of b 1] by (simp add: word_sless_alt)

lemma sint_inc: "(a::int64) <s b \<Longrightarrow> sint (a + 1) = sint a + 1"
  using sint_bounds64 [of a] sint_bounds64 [of b] sint_add_no_wrap [of a 1] by (simp add: word_sless_alt)

lemma need_pos: "0 < need p"
  by (simp add: need_def word_sless_alt)

lemma need_requeue:
  "1 <s BurstDuration p \<Longrightarrow> need (p \<lparr> BurstDuration := BurstDuration p - 1 \<rparr>) < need p"
  by (simp add: need_def sint_dec word_sless_alt)

lemma dispatch_work:
  assumes "RR_dispatch v p = Inr v2"
  shows "sum_list (map need (queue v2)) < sum_list (map need (queue v)) + need p
         \<and> processCounter v2 = processCounter v"
proof (cases "1 <s BurstDuration p")
  case True
  then have "sint (BurstDuration p - 1) = sint (BurstDuration p) - 1" by (rule sint_dec)
  then have "0 <s BurstDuration p - 1" using True by (simp add: word_sless_alt)
  then show ?thesis using assms True need_requeue [of p]
    by (auto simp: RR_dispatch_def Let_def min_int64_def quantum_def split: if_splits)
next
  case False
  then show ?thesis using assms need_pos [of p]
    by (auto simp: RR_dispatch_def Let_def min_int64_def quantum_def split: if_splits)
qed

function RR_loop :: "Process list \<Rightarrow> vars \<Rightarrow> panic + vars" where
  "RR_loop processes v =
     (if 0 < length (queue v) \<or> processCounter v < length processes then
        (let v1 = RR_admit processes v in
         (case queue v1 of
            currentProcess # rest \<Rightarrow>
              (case RR_dispatch (v1 \<lparr> queue := rest \<rparr>) currentProcess of
                 Inl e \<Rightarrow> Inl e
               | Inr v2 \<Rightarrow> RR_loop processes v2)
          | [] \<Rightarrow> RR_loop processes (v1 \<lparr> serviceTime := serviceTime v1 + 1 \<rparr>)))
      else Inr v)"
  by pat_completeness auto
termination
proof (relation "measures [\<lambda>(ps, v). work ps v, \<lambda>(ps, v). idle ps v]")
  show "wf (measures [\<lambda>(ps, v). work ps v, \<lambda>(ps, v). idle ps v])"
    by simp
next
  fix processes v x
  assume c: "0 < length (queue v) \<or> processCounter v < length processes"
    and x: "x = RR_admit processes v" and e: "queue x = []"
  from x e have eq: "x = v"
    and no: "\<not> (processCounter v < length processes \<and>
                 ArrivalTime (processes ! processCounter v) \<le>s serviceTime v)"
    using admit_empty [of processes v] by simp_all
  from c e eq have pc: "processCounter v < length processes" by simp
  with no have lt: "serviceTime v <s ArrivalTime (processes ! processCounter v)"
    by (simp add: word_sless_alt word_sle_eq)
  then have "sint (serviceTime v + 1) = sint (serviceTime v) + 1" by (rule sint_inc)
  then have "idle processes (v \<lparr> serviceTime := serviceTime v + 1 \<rparr>) < idle processes v"
    using pc lt by (simp add: idle_def word_sless_alt)
  then show "((processes, x \<lparr> serviceTime := serviceTime x + 1 \<rparr>), processes, v)
             \<in> measures [\<lambda>(ps, v). work ps v, \<lambda>(ps, v). idle ps v]"
    using eq by (simp add: work_def)
next
  fix processes v x x21 x22 b
  assume x: "x = RR_admit processes v" and q: "queue x = x21 # x22"
    and d: "RR_dispatch (x \<lparr> queue := x22 \<rparr>) x21 = Inr b"
  have "work processes b < work processes x"
    using q dispatch_work [OF d] by (simp add: work_def)
  then show "((processes, b), processes, v)
             \<in> measures [\<lambda>(ps, v). work ps v, \<lambda>(ps, v). idle ps v]"
    using x work_admit [of processes v] by simp
qed

declare RR_loop.simps [simp del]

definition RRSchedule :: "Process list \<Rightarrow> panic + Output" where
  "RRSchedule processes =
     (case RR_loop processes (init_vars (length processes)) of
        Inl e \<Rightarrow> Inl e
      | Inr v \<Rightarrow> Inr (finish processes v))"

section \<open>PriorityQueue and container/heap\<close>

text \<open>
  The methods of \<open>PriorityQueue\<close> are the source's. \<open>up\<close>, \<open>down\<close>, \<open>heap.Push\<close> and
  \<open>heap.Pop\<close> are those of Go's \<open>container/heap\<close>, which calls them. \<open>heap.Pop\<close> starts
  with \<open>h.Swap(0, h.Len() - 1)\<close>: on the empty queue this reads \<open>pq[-1]\<close> and panics.
  \<open>heap.Init\<close> is called on the empty queue only, where it does nothing.
\<close>

definition PriorityQueue_Less :: "PriorityQueue \<Rightarrow> nat \<Rightarrow> nat \<Rightarrow> bool" where
  "PriorityQueue_Less pq i j = (pp_Priority (pq ! i) <s pp_Priority (pq ! j))"

definition PriorityQueue_Swap :: "PriorityQueue \<Rightarrow> nat \<Rightarrow> nat \<Rightarrow> PriorityQueue" where
  "PriorityQueue_Swap pq i j = pq [i := pq ! j, j := pq ! i]"

definition PriorityQueue_Push :: "PriorityQueue \<Rightarrow> PriorityProcess \<Rightarrow> PriorityQueue" where
  "PriorityQueue_Push pq item = pq @ [item]"

definition PriorityQueue_Pop :: "PriorityQueue \<Rightarrow> PriorityProcess \<times> PriorityQueue" where
  "PriorityQueue_Pop old = (old ! (length old - 1), take (length old - 1) old)"

function up :: "PriorityQueue \<Rightarrow> nat \<Rightarrow> PriorityQueue" where
  "up h j =
     (let i = (j - 1) div 2 in
      if i = j \<or> \<not> PriorityQueue_Less h j i then h
      else up (PriorityQueue_Swap h i j) i)"
  by pat_completeness auto
termination
  by (relation "measure (\<lambda>(h, j). j)") auto

function down :: "PriorityQueue \<Rightarrow> nat \<Rightarrow> nat \<Rightarrow> PriorityQueue" where
  "down h i n =
     (let j1 = 2 * i + 1 in
      if n \<le> j1 then h
      else
        (let j = (if j1 + 1 < n \<and> PriorityQueue_Less h (j1 + 1) j1 then j1 + 1 else j1) in
         if \<not> PriorityQueue_Less h j i then h
         else down (PriorityQueue_Swap h i j) j n))"
  by pat_completeness auto
termination
  by (relation "measure (\<lambda>(h, i, n). n - i)") (auto simp: Let_def)

declare up.simps [simp del] down.simps [simp del]

definition heap_Push :: "PriorityQueue \<Rightarrow> PriorityProcess \<Rightarrow> PriorityQueue" where
  "heap_Push h x = (let h1 = PriorityQueue_Push h x in up h1 (length h1 - 1))"

definition heap_Pop :: "PriorityQueue \<Rightarrow> panic + PriorityProcess \<times> PriorityQueue" where
  "heap_Pop h =
     (let n = int (length h) - 1 in
      if n < 0 then Inl (IndexOutOfRange n (length h))
      else Inr (PriorityQueue_Pop (down (PriorityQueue_Swap h 0 (nat n)) 0 (nat n))))"

lemma length_Swap [simp]: "length (PriorityQueue_Swap h i j) = length h"
  by (simp add: PriorityQueue_Swap_def)

lemma length_up [simp]: "length (up h j) = length h"
  by (induction h j rule: up.induct) (subst up.simps, simp add: Let_def)

lemma length_down [simp]: "length (down h i n) = length h"
  by (induction h i n rule: down.induct) (subst down.simps, auto simp add: Let_def)

lemma length_heap_Push [simp]: "length (heap_Push h x) = Suc (length h)"
  by (simp add: heap_Push_def PriorityQueue_Push_def Let_def)

lemma length_heap_Pop: "heap_Pop h = Inr (x, h') \<Longrightarrow> Suc (length h') = length h"
  by (auto simp: heap_Pop_def PriorityQueue_Pop_def Let_def split: if_splits)

section \<open>sort.Slice\<close>

text \<open>
  \<open>sort.Slice\<close> belongs to Go's standard library. On a slice of at most 12 elements it
  runs \<open>insertionSort_func\<close>, modelled here; what it does on a longer slice
  (pattern-defeating quicksort) is the parameter \<open>pdq\<close>. The source's \<open>less\<close> compares
  arrival times.
\<close>

function insertion_inner :: "('a \<Rightarrow> 'a \<Rightarrow> bool) \<Rightarrow> 'a list \<Rightarrow> nat \<Rightarrow> nat \<Rightarrow> 'a list" where
  "insertion_inner lt data a j =
     (if a < j \<and> lt (data ! j) (data ! (j - 1))
      then insertion_inner lt (data [j := data ! (j - 1), j - 1 := data ! j]) a (j - 1)
      else data)"
  by pat_completeness auto
termination
  by (relation "measure (\<lambda>(lt, data, a, j). j)") auto

declare insertion_inner.simps [simp del]

definition insertionSort_func :: "('a \<Rightarrow> 'a \<Rightarrow> bool) \<Rightarrow> 'a list \<Rightarrow> nat \<Rightarrow> nat \<Rightarrow> 'a list" where
  "insertionSort_func lt data a b =
     foldl (\<lambda>d i. insertion_inner lt d a i) data [a + 1..<b]"

definition by_arrival :: "Process \<Rightarrow> Process \<Rightarrow> bool" where
  "by_arrival p q = (ArrivalTime p <s ArrivalTime q)"

definition sort_Slice :: "(Process list \<Rightarrow> Process list) \<Rightarrow> Process list \<Rightarrow> Process list" where
  "sort_Slice pdq processes =
     (if length processes \<le> 12 then insertionSort_func by_arrival processes 0 (length processes)
      else pdq processes)"

section \<open>pdqsort_func\<close>

text \<open>
  What \<open>sort.Slice\<close> runs on a slice of more than 12 elements: the pattern-defeating
  quicksort of Go's \<open>sort\<close> package (Go 1.19 and later), transcribed from the library the
  source calls. It is the instance of the parameter \<open>pdq\<close> that the counterexample of C5
  is evaluated with; no other property depends on it.
\<close>

unbundle bit_operations_syntax

definition slice_Swap :: "'a list \<Rightarrow> nat \<Rightarrow> nat \<Rightarrow> 'a list" where
  "slice_Swap data i j = data [i := data ! j, j := data ! i]"

datatype sortedHint = unknownHint | increasingHint | decreasingHint

subsection \<open>Heap sort, the fallback\<close>

function siftDown_func ::
  "('a \<Rightarrow> 'a \<Rightarrow> bool) \<Rightarrow> 'a list \<Rightarrow> nat \<Rightarrow> nat \<Rightarrow> nat \<Rightarrow> 'a list" where
  "siftDown_func lt data rt hi first =
     (let child = 2 * rt + 1 in
      if hi \<le> child then data
      else
        (let child = (if child + 1 < hi \<and> lt (data ! (first + child)) (data ! (first + child + 1))
                      then child + 1 else child) in
         if \<not> lt (data ! (first + rt)) (data ! (first + child)) then data
         else siftDown_func lt (slice_Swap data (first + rt) (first + child)) child hi first))"
  by pat_completeness auto
termination
  by (relation "measure (\<lambda>(lt, data, rt, hi, first). hi - rt)") (auto simp: Let_def)

definition heapSort_func :: "('a \<Rightarrow> 'a \<Rightarrow> bool) \<Rightarrow> 'a list \<Rightarrow> nat \<Rightarrow> nat \<Rightarrow> 'a list" where
  "heapSort_func lt data a b =
     (let first = a; lo = 0; hi = b - a;
          data = foldl (\<lambda>d i. siftDown_func lt d i hi first) data (rev [0..<Suc ((hi - 1) div 2)])
      in foldl (\<lambda>d i. siftDown_func lt (slice_Swap d first (first + i)) lo i first) data
           (rev [0..<hi]))"

subsection \<open>Choosing the pivot\<close>

definition order2_func ::
  "('a \<Rightarrow> 'a \<Rightarrow> bool) \<Rightarrow> 'a list \<Rightarrow> nat \<Rightarrow> nat \<Rightarrow> nat \<Rightarrow> nat \<times> nat \<times> nat" where
  "order2_func lt data a b swaps =
     (if lt (data ! b) (data ! a) then (b, a, swaps + 1) else (a, b, swaps))"

definition median_func ::
  "('a \<Rightarrow> 'a \<Rightarrow> bool) \<Rightarrow> 'a list \<Rightarrow> nat \<Rightarrow> nat \<Rightarrow> nat \<Rightarrow> nat \<Rightarrow> nat \<times> nat" where
  "median_func lt data a b c swaps =
     (case order2_func lt data a b swaps of (a, b, swaps) \<Rightarrow>
      case order2_func lt data b c swaps of (b, c, swaps) \<Rightarrow>
      case order2_func lt data a b swaps of (a, b, swaps) \<Rightarrow> (b, swaps))"

definition medianAdjacent_func ::
  "('a \<Rightarrow> 'a \<Rightarrow> bool) \<Rightarrow> 'a list \<Rightarrow> nat \<Rightarrow> nat \<Rightarrow> nat \<times> nat" where
  "medianAdjacent_func lt data a swaps = median_func lt data (a - 1) a (a + 1) swaps"

definition choosePivot_func ::
  "('a \<Rightarrow> 'a \<Rightarrow> bool) \<Rightarrow> 'a list \<Rightarrow> nat \<Rightarrow> nat \<Rightarrow> nat \<times> sortedHint" where
  "choosePivot_func lt data a b =
     (let l = b - a; i = a + l div 4 * 1; j = a + l div 4 * 2; k = a + l div 4 * 3 in
      case (if 8 \<le> l then
              (case (if 50 \<le> l then
                       (case medianAdjacent_func lt data i 0 of (i, swaps) \<Rightarrow>
                        case medianAdjacent_func lt data j swaps of (j, swaps) \<Rightarrow>
                        case medianAdjacent_func lt data k swaps of (k, swaps) \<Rightarrow>
                          (i, j, k, swaps))
                     else (i, j, k, 0)) of
                 (i, j, k, swaps) \<Rightarrow> median_func lt data i j k swaps)
            else (j, 0)) of
        (j, swaps) \<Rightarrow>
          (j, if swaps = 0 then increasingHint
              else if swaps = 12 then decreasingHint else unknownHint))"

function reverseRange_loop :: "'a list \<Rightarrow> nat \<Rightarrow> nat \<Rightarrow> 'a list" where
  "reverseRange_loop data i j =
     (if i < j then reverseRange_loop (slice_Swap data i j) (i + 1) (j - 1) else data)"
  by pat_completeness auto
termination
  by (relation "measure (\<lambda>(data, i, j). j - i)") auto

definition reverseRange_func :: "'a list \<Rightarrow> nat \<Rightarrow> nat \<Rightarrow> 'a list" where
  "reverseRange_func data a b = reverseRange_loop data a (b - 1)"

subsection \<open>partialInsertionSort\<close>

text \<open>
  The outer loop runs at most \<open>maxSteps = 5\<close> times; \<open>pis_body\<close> is one iteration, which
  either returns or goes on with the data and the index \<open>i\<close>. The inner loops are
  \<open>pis_scan\<close>, \<open>pis_shift_left\<close> and \<open>pis_shift_right\<close>.
\<close>

function pis_scan :: "('a \<Rightarrow> 'a \<Rightarrow> bool) \<Rightarrow> 'a list \<Rightarrow> nat \<Rightarrow> nat \<Rightarrow> nat" where
  "pis_scan lt data i b =
     (if i < b \<and> \<not> lt (data ! i) (data ! (i - 1)) then pis_scan lt data (i + 1) b else i)"
  by pat_completeness auto
termination
  by (relation "measure (\<lambda>(lt, data, i, b). b - i)") auto

function pis_shift_left :: "('a \<Rightarrow> 'a \<Rightarrow> bool) \<Rightarrow> 'a list \<Rightarrow> nat \<Rightarrow> 'a list" where
  "pis_shift_left lt data j =
     (if 1 \<le> j then
        (if \<not> lt (data ! j) (data ! (j - 1)) then data
         else pis_shift_left lt (slice_Swap data j (j - 1)) (j - 1))
      else data)"
  by pat_completeness auto
termination
  by (relation "measure (\<lambda>(lt, data, j). j)") auto

function pis_shift_right :: "('a \<Rightarrow> 'a \<Rightarrow> bool) \<Rightarrow> 'a list \<Rightarrow> nat \<Rightarrow> nat \<Rightarrow> 'a list" where
  "pis_shift_right lt data j b =
     (if j < b then
        (if \<not> lt (data ! j) (data ! (j - 1)) then data
         else pis_shift_right lt (slice_Swap data j (j - 1)) (j + 1) b)
      else data)"
  by pat_completeness auto
termination
  by (relation "measure (\<lambda>(lt, data, j, b). b - j)") auto

definition pis_body ::
  "('a \<Rightarrow> 'a \<Rightarrow> bool) \<Rightarrow> nat \<Rightarrow> nat \<Rightarrow> 'a list \<times> nat \<Rightarrow> ('a list \<times> bool) + ('a list \<times> nat)" where
  "pis_body lt a b st =
     (case st of (data, i) \<Rightarrow>
        (let i = pis_scan lt data i b in
         if i = b then Inl (data, True)
         else if b - a < 50 then Inl (data, False)
         else
           (let data = slice_Swap data i (i - 1);
                data = (if 2 \<le> i - a then pis_shift_left lt data (i - 1) else data);
                data = (if 2 \<le> b - i then pis_shift_right lt data (i + 1) b else data)
            in Inr (data, i))))"

primrec pis_steps ::
  "('a \<Rightarrow> 'a \<Rightarrow> bool) \<Rightarrow> nat \<Rightarrow> nat \<Rightarrow> nat \<Rightarrow> 'a list \<times> nat \<Rightarrow> 'a list \<times> bool" where
  "pis_steps lt a b 0 st = (fst st, False)"
| "pis_steps lt a b (Suc n) st =
     (case pis_body lt a b st of
        Inl result \<Rightarrow> result
      | Inr st' \<Rightarrow> pis_steps lt a b n st')"

definition partialInsertionSort_func ::
  "('a \<Rightarrow> 'a \<Rightarrow> bool) \<Rightarrow> 'a list \<Rightarrow> nat \<Rightarrow> nat \<Rightarrow> 'a list \<times> bool" where
  "partialInsertionSort_func lt data a b = pis_steps lt a b 5 (data, a + 1)"

subsection \<open>breakPatterns\<close>

text \<open>
  \<open>bits_Len\<close> is \<open>bits.Len\<close>. The pseudo-random generator (the \<open>Next\<close> method of
  \<open>xorshift\<close>) is the parameter \<open>random_Next\<close>.
\<close>

fun bits_Len :: "nat \<Rightarrow> nat" where
  "bits_Len n = (if n = 0 then 0 else Suc (bits_Len (n div 2)))"

declare bits_Len.simps [simp del]

definition nextPowerOfTwo :: "nat \<Rightarrow> 64 word" where
  "nextPowerOfTwo len = push_bit (bits_Len len) 1"

definition breakPatterns_step ::
  "(64 word \<Rightarrow> 64 word) \<Rightarrow> nat \<Rightarrow> nat \<Rightarrow> nat \<Rightarrow> 64 word \<Rightarrow> 64 word \<times> 'a list \<Rightarrow> nat \<Rightarrow>
   64 word \<times> 'a list" where
  "breakPatterns_step random_Next a len idx modulus st i =
     (case st of (random, data) \<Rightarrow>
        (let random = random_Next random;
             other = unat (random AND (modulus - 1));
             other = (if len \<le> other then other - len else other)
         in (random, slice_Swap data (idx - 1 + i) (a + other))))"

definition breakPatterns_func ::
  "(64 word \<Rightarrow> 64 word) \<Rightarrow> 'a list \<Rightarrow> nat \<Rightarrow> nat \<Rightarrow> 'a list" where
  "breakPatterns_func random_Next data a b =
     (let len = b - a in
      if 8 \<le> len then
        (let random = word_of_nat len;
             modulus = nextPowerOfTwo len;
             idx = a + (len div 4) * 2 - 1
         in snd (foldl (breakPatterns_step random_Next a len idx modulus) (random, data)
                   [0, 1, 2]))
      else data)"

subsection \<open>Partitioning\<close>

text \<open>
  The indices \<open>i\<close> and \<open>j\<close> of the partitioning loops are Go's \<open>int\<close>: \<open>j\<close> may step
  below \<open>i\<close>. The four \<open>skip\<close> functions are the inner loops of \<open>partition_func\<close> and of
  \<open>partitionEqual_func\<close>.
\<close>

function skip_less :: "('a \<Rightarrow> 'a \<Rightarrow> bool) \<Rightarrow> 'a list \<Rightarrow> nat \<Rightarrow> int \<Rightarrow> int \<Rightarrow> int" where
  "skip_less lt data a i j =
     (if i \<le> j \<and> lt (data ! nat i) (data ! a) then skip_less lt data a (i + 1) j else i)"
  by pat_completeness auto
termination
  by (relation "measure (\<lambda>(lt, data, a, i, j). nat (j + 1 - i))") auto

function skip_not_less :: "('a \<Rightarrow> 'a \<Rightarrow> bool) \<Rightarrow> 'a list \<Rightarrow> nat \<Rightarrow> int \<Rightarrow> int \<Rightarrow> int" where
  "skip_not_less lt data a i j =
     (if i \<le> j \<and> \<not> lt (data ! nat j) (data ! a) then skip_not_less lt data a i (j - 1) else j)"
  by pat_completeness auto
termination
  by (relation "measure (\<lambda>(lt, data, a, i, j). nat (j + 1 - i))") auto

declare skip_less.simps [simp del] skip_not_less.simps [simp del]

lemma skip_less_bounds: "i \<le> skip_less lt data a i j \<and> skip_less lt data a i j \<le> max i (j + 1)"
proof (induction lt data a i j rule: skip_less.induct)
  case (1 lt data a i j)
  show ?case
  proof (cases "i \<le> j \<and> lt (data ! nat i) (data ! a)")
    case True
    then have "skip_less lt data a i j = skip_less lt data a (i + 1) j"
      by (subst skip_less.simps) simp
    then show ?thesis using True 1 by auto
  next
    case False
    then have "skip_less lt data a i j = i"
      by (subst skip_less.simps) auto
    then show ?thesis by simp
  qed
qed

lemma skip_not_less_bounds:
  "min j (i - 1) \<le> skip_not_less lt data a i j \<and> skip_not_less lt data a i j \<le> j"
proof (induction lt data a i j rule: skip_not_less.induct)
  case (1 lt data a i j)
  show ?case
  proof (cases "i \<le> j \<and> \<not> lt (data ! nat j) (data ! a)")
    case True
    then have "skip_not_less lt data a i j = skip_not_less lt data a i (j - 1)"
      by (subst skip_not_less.simps) simp
    then show ?thesis using True 1 by auto
  next
    case False
    then have "skip_not_less lt data a i j = j"
      by (subst skip_not_less.simps) auto
    then show ?thesis by simp
  qed
qed

function partition_loop ::
  "('a \<Rightarrow> 'a \<Rightarrow> bool) \<Rightarrow> 'a list \<Rightarrow> nat \<Rightarrow> int \<Rightarrow> int \<Rightarrow> 'a list \<times> int" where
  "partition_loop lt data a i j =
     (let i = skip_less lt data a i j;
          j = skip_not_less lt data a i j in
      if j < i then (data, j)
      else partition_loop lt (slice_Swap data (nat i) (nat j)) a (i + 1) (j - 1))"
  by pat_completeness auto
termination
proof (relation "measure (\<lambda>(lt, data, a, i, j). nat (j + 1 - i))", goal_cases)
  case 1
  show ?case by simp
next
  case (2 lt data a i j i' j')
  then show ?case
    using skip_less_bounds [of i lt data a j] skip_not_less_bounds [of j i' lt data a]
    by auto
qed

declare partition_loop.simps [simp del]

definition partition_func ::
  "('a \<Rightarrow> 'a \<Rightarrow> bool) \<Rightarrow> 'a list \<Rightarrow> nat \<Rightarrow> nat \<Rightarrow> nat \<Rightarrow> 'a list \<times> nat \<times> bool" where
  "partition_func lt data a b pivot =
     (let data = slice_Swap data a pivot;
          i = skip_less lt data a (int a + 1) (int b - 1);
          j = skip_not_less lt data a i (int b - 1) in
      if j < i then (slice_Swap data (nat j) a, nat j, True)
      else
        (case partition_loop lt (slice_Swap data (nat i) (nat j)) a (i + 1) (j - 1) of
           (data, j) \<Rightarrow> (slice_Swap data (nat j) a, nat j, False)))"

function skip_not_greater :: "('a \<Rightarrow> 'a \<Rightarrow> bool) \<Rightarrow> 'a list \<Rightarrow> nat \<Rightarrow> int \<Rightarrow> int \<Rightarrow> int" where
  "skip_not_greater lt data a i j =
     (if i \<le> j \<and> \<not> lt (data ! a) (data ! nat i) then skip_not_greater lt data a (i + 1) j else i)"
  by pat_completeness auto
termination
  by (relation "measure (\<lambda>(lt, data, a, i, j). nat (j + 1 - i))") auto

function skip_greater :: "('a \<Rightarrow> 'a \<Rightarrow> bool) \<Rightarrow> 'a list \<Rightarrow> nat \<Rightarrow> int \<Rightarrow> int \<Rightarrow> int" where
  "skip_greater lt data a i j =
     (if i \<le> j \<and> lt (data ! a) (data ! nat j) then skip_greater lt data a i (j - 1) else j)"
  by pat_completeness auto
termination
  by (relation "measure (\<lambda>(lt, data, a, i, j). nat (j + 1 - i))") auto

declare skip_not_greater.simps [simp del] skip_greater.simps [simp del]

lemma skip_not_greater_bounds:
  "i \<le> skip_not_greater lt data a i j \<and> skip_not_greater lt data a i j \<le> max i (j + 1)"
proof (induction lt data a i j rule: skip_not_greater.induct)
  case (1 lt data a i j)
  show ?case
  proof (cases "i \<le> j \<and> \<not> lt (data ! a) (data ! nat i)")
    case True
    then have "skip_not_greater lt data a i j = skip_not_greater lt data a (i + 1) j"
      by (subst skip_not_greater.simps) simp
    then show ?thesis using True 1 by auto
  next
    case False
    then have "skip_not_greater lt data a i j = i"
      by (subst skip_not_greater.simps) auto
    then show ?thesis by simp
  qed
qed

lemma skip_greater_bounds:
  "min j (i - 1) \<le> skip_greater lt data a i j \<and> skip_greater lt data a i j \<le> j"
proof (induction lt data a i j rule: skip_greater.induct)
  case (1 lt data a i j)
  show ?case
  proof (cases "i \<le> j \<and> lt (data ! a) (data ! nat j)")
    case True
    then have "skip_greater lt data a i j = skip_greater lt data a i (j - 1)"
      by (subst skip_greater.simps) simp
    then show ?thesis using True 1 by auto
  next
    case False
    then have "skip_greater lt data a i j = j"
      by (subst skip_greater.simps) auto
    then show ?thesis by simp
  qed
qed

function partitionEqual_loop ::
  "('a \<Rightarrow> 'a \<Rightarrow> bool) \<Rightarrow> 'a list \<Rightarrow> nat \<Rightarrow> int \<Rightarrow> int \<Rightarrow> 'a list \<times> int" where
  "partitionEqual_loop lt data a i j =
     (let i = skip_not_greater lt data a i j;
          j = skip_greater lt data a i j in
      if j < i then (data, i)
      else partitionEqual_loop lt (slice_Swap data (nat i) (nat j)) a (i + 1) (j - 1))"
  by pat_completeness auto
termination
proof (relation "measure (\<lambda>(lt, data, a, i, j). nat (j + 1 - i))", goal_cases)
  case 1
  show ?case by simp
next
  case (2 lt data a i j i' j')
  then show ?case
    using skip_not_greater_bounds [of i lt data a j] skip_greater_bounds [of j i' lt data a]
    by auto
qed

declare partitionEqual_loop.simps [simp del]

definition partitionEqual_func ::
  "('a \<Rightarrow> 'a \<Rightarrow> bool) \<Rightarrow> 'a list \<Rightarrow> nat \<Rightarrow> nat \<Rightarrow> nat \<Rightarrow> 'a list \<times> nat" where
  "partitionEqual_func lt data a b pivot =
     (case partitionEqual_loop lt (slice_Swap data a pivot) a (int a + 1) (int b - 1) of
        (data, i) \<Rightarrow> (data, nat i))"

lemma partition_loop_bounds:
  "partition_loop lt data a i j = (d, j') \<Longrightarrow> min j (i - 1) \<le> j' \<and> j' \<le> j"
proof (induction lt data a i j arbitrary: d j' rule: partition_loop.induct)
  case (1 lt data a i j)
  define i1 where "i1 = skip_less lt data a i j"
  define j1 where "j1 = skip_not_less lt data a i1 j"
  have bi: "i \<le> i1" using skip_less_bounds [of i lt data a j] by (simp add: i1_def)
  have bj: "min j (i1 - 1) \<le> j1" "j1 \<le> j"
    using skip_not_less_bounds [of j i1 lt data a] by (simp_all add: j1_def)
  show ?case
  proof (cases "j1 < i1")
    case True
    then have "partition_loop lt data a i j = (data, j1)"
      by (subst partition_loop.simps) (simp add: Let_def i1_def j1_def)
    then show ?thesis using "1.prems" bi bj by auto
  next
    case False
    then have "partition_loop lt data a i j =
               partition_loop lt (slice_Swap data (nat i1) (nat j1)) a (i1 + 1) (j1 - 1)"
      by (subst partition_loop.simps) (simp add: Let_def i1_def j1_def)
    then have e: "partition_loop lt (slice_Swap data (nat i1) (nat j1)) a (i1 + 1) (j1 - 1) = (d, j')"
      using "1.prems" by simp
    have "min (j1 - 1) (i1 + 1 - 1) \<le> j' \<and> j' \<le> j1 - 1"
      by (rule "1.IH" [OF i1_def j1_def False e])
    then show ?thesis using bi bj False by auto
  qed
qed

lemma partition_func_bounds:
  assumes "partition_func lt data a b pivot = (d, mid, p)" "a < b"
  shows "a \<le> mid \<and> mid < b"
proof -
  define d0 where "d0 = slice_Swap data a pivot"
  define i1 where "i1 = skip_less lt d0 a (int a + 1) (int b - 1)"
  define j1 where "j1 = skip_not_less lt d0 a i1 (int b - 1)"
  have bi: "int a + 1 \<le> i1" using skip_less_bounds [of "int a + 1" lt d0 a "int b - 1"]
    by (simp add: i1_def)
  have bj: "min (int b - 1) (i1 - 1) \<le> j1" "j1 \<le> int b - 1"
    using skip_not_less_bounds [of "int b - 1" i1 lt d0 a] by (simp_all add: j1_def)
  show ?thesis
  proof (cases "j1 < i1")
    case True
    then have "mid = nat j1"
      using assms(1) by (simp add: partition_func_def Let_def d0_def i1_def j1_def)
    then show ?thesis using bi bj assms(2) by auto
  next
    case False
    obtain d2 j2 where l: "partition_loop lt (slice_Swap d0 (nat i1) (nat j1)) a (i1 + 1) (j1 - 1) = (d2, j2)"
      by (cases "partition_loop lt (slice_Swap d0 (nat i1) (nat j1)) a (i1 + 1) (j1 - 1)")
    then have "mid = nat j2"
      using assms(1) False by (simp add: partition_func_def Let_def d0_def i1_def j1_def)
    moreover have "min (j1 - 1) (i1 + 1 - 1) \<le> j2 \<and> j2 \<le> j1 - 1"
      using partition_loop_bounds [OF l] by simp
    ultimately show ?thesis using bi bj False assms(2) by auto
  qed
qed

lemma partitionEqual_loop_bounds:
  "partitionEqual_loop lt data a i j = (d, i') \<Longrightarrow> i \<le> i' \<and> i' \<le> max i (j + 1)"
proof (induction lt data a i j arbitrary: d i' rule: partitionEqual_loop.induct)
  case (1 lt data a i j)
  define i1 where "i1 = skip_not_greater lt data a i j"
  define j1 where "j1 = skip_greater lt data a i1 j"
  have bi: "i \<le> i1" "i1 \<le> max i (j + 1)"
    using skip_not_greater_bounds [of i lt data a j] by (simp_all add: i1_def)
  have bj: "min j (i1 - 1) \<le> j1" "j1 \<le> j"
    using skip_greater_bounds [of j i1 lt data a] by (simp_all add: j1_def)
  show ?case
  proof (cases "j1 < i1")
    case True
    then have "partitionEqual_loop lt data a i j = (data, i1)"
      by (subst partitionEqual_loop.simps) (simp add: Let_def i1_def j1_def)
    then show ?thesis using "1.prems" bi by auto
  next
    case False
    then have "partitionEqual_loop lt data a i j =
               partitionEqual_loop lt (slice_Swap data (nat i1) (nat j1)) a (i1 + 1) (j1 - 1)"
      by (subst partitionEqual_loop.simps) (simp add: Let_def i1_def j1_def)
    then have e: "partitionEqual_loop lt (slice_Swap data (nat i1) (nat j1)) a (i1 + 1) (j1 - 1) = (d, i')"
      using "1.prems" by simp
    have "i1 + 1 \<le> i' \<and> i' \<le> max (i1 + 1) (j1 - 1 + 1)"
      by (rule "1.IH" [OF i1_def j1_def False e])
    then show ?thesis using bi bj False by auto
  qed
qed

lemma partitionEqual_func_bounds:
  assumes "partitionEqual_func lt data a b pivot = (d, mid)" "a < b"
  shows "a < mid \<and> mid \<le> b"
proof -
  obtain d2 i2 where l:
    "partitionEqual_loop lt (slice_Swap data a pivot) a (int a + 1) (int b - 1) = (d2, i2)"
    by (cases "partitionEqual_loop lt (slice_Swap data a pivot) a (int a + 1) (int b - 1)")
  then have "mid = nat i2" using assms(1) by (simp add: partitionEqual_func_def)
  moreover have "int a + 1 \<le> i2 \<and> i2 \<le> max (int a + 1) (int b - 1 + 1)"
    using partitionEqual_loop_bounds [OF l] by simp
  ultimately show ?thesis using assms(2) by auto
qed

subsection \<open>The main loop\<close>

text \<open>
  \<open>pdqsort_prepare\<close> is the part of one iteration before the partitioning: breaking
  patterns, choosing the pivot, reversing a decreasing range and the attempt of
  \<open>partialInsertionSort_func\<close>; it yields the data, the limit, the pivot and whether the
  range is sorted already. An iteration that goes on is a call of \<open>pdqsort_func\<close> with the
  new bounds and flags.
\<close>

definition pdqsort_prepare ::
  "(64 word \<Rightarrow> 64 word) \<Rightarrow> ('a \<Rightarrow> 'a \<Rightarrow> bool) \<Rightarrow> 'a list \<Rightarrow> nat \<Rightarrow> nat \<Rightarrow> nat \<Rightarrow> bool \<Rightarrow> bool \<Rightarrow>
   'a list \<times> nat \<times> nat \<times> bool" where
  "pdqsort_prepare random_Next lt data a b limit wasBalanced wasPartitioned =
     (case (if \<not> wasBalanced then (breakPatterns_func random_Next data a b, limit - 1)
            else (data, limit)) of
        (data, limit) \<Rightarrow>
          (case choosePivot_func lt data a b of
             (pivot, hint) \<Rightarrow>
               (case (if hint = decreasingHint
                      then (reverseRange_func data a b, (b - 1) - (pivot - a), increasingHint)
                      else (data, pivot, hint)) of
                  (data, pivot, hint) \<Rightarrow>
                    (if wasBalanced \<and> wasPartitioned \<and> hint = increasingHint then
                       (case partialInsertionSort_func lt data a b of
                          (data, isSorted) \<Rightarrow> (data, limit, pivot, isSorted))
                     else (data, limit, pivot, False)))))"

function pdqsort_func ::
  "(64 word \<Rightarrow> 64 word) \<Rightarrow> ('a \<Rightarrow> 'a \<Rightarrow> bool) \<Rightarrow> 'a list \<Rightarrow> nat \<Rightarrow> nat \<Rightarrow> nat \<Rightarrow> bool \<Rightarrow> bool \<Rightarrow>
   'a list" where
  "pdqsort_func random_Next lt data a b limit wasBalanced wasPartitioned =
     (if b - a \<le> 12 then insertionSort_func lt data a b
      else if limit = 0 then heapSort_func lt data a b
      else
        (case pdqsort_prepare random_Next lt data a b limit wasBalanced wasPartitioned of
           (data, limit, pivot, isSorted) \<Rightarrow>
             if isSorted then data
             else if 0 < a \<and> \<not> lt (data ! (a - 1)) (data ! pivot) then
               (case partitionEqual_func lt data a b pivot of
                  (data, mid) \<Rightarrow>
                    pdqsort_func random_Next lt data mid b limit wasBalanced wasPartitioned)
             else
               (case partition_func lt data a b pivot of
                  (data, mid, alreadyPartitioned) \<Rightarrow>
                    if mid - a < b - mid then
                      pdqsort_func random_Next lt
                        (pdqsort_func random_Next lt data a mid limit True True)
                        (mid + 1) b limit ((b - a) div 8 \<le> mid - a) alreadyPartitioned
                    else
                      pdqsort_func random_Next lt
                        (pdqsort_func random_Next lt data (mid + 1) b limit True True)
                        a mid limit ((b - a) div 8 \<le> b - mid) alreadyPartitioned)))"
  by pat_completeness auto
termination
proof (relation "measure (\<lambda>(rn, lt, data, a, b, limit, wb, wp). b - a)", goal_cases)
  case 1
  show ?case by simp
next
  case (2 rn lt data a b limit wb wp x y xa ya xb yb xc yc)
  then have "partitionEqual_func lt x a b xb = (xc, yc)" and "a < b" by simp_all
  then have "a < yc \<and> yc \<le> b" by (rule partitionEqual_func_bounds)
  then show ?case by auto
next
  case (3 rn lt data a b limit wb wp x y xa ya xb yb xc yc xd yd)
  then have "partition_func lt x a b xb = (xc, xd, yd)" and "a < b" by simp_all
  then have "a \<le> xd \<and> xd < b" by (rule partition_func_bounds)
  then show ?case by auto
next
  case (4 rn lt data a b limit wb wp x y xa ya xb yb xc yc xd yd)
  then have "partition_func lt x a b xb = (xc, xd, yd)" and "a < b" by simp_all
  then have "a \<le> xd \<and> xd < b" by (rule partition_func_bounds)
  then show ?case by auto
next
  case (5 rn lt data a b limit wb wp x y xa ya xb yb xc yc xd yd)
  then have "partition_func lt x a b xb = (xc, xd, yd)" and "a < b" by simp_all
  then have "a \<le> xd \<and> xd < b" by (rule partition_func_bounds)
  then show ?case by auto
next
  case (6 rn lt data a b limit wb wp x y xa ya xb yb xc yc xd yd)
  then have "partition_func lt x a b xb = (xc, xd, yd)" and "a < b" by simp_all
  then have "a \<le> xd \<and> xd < b" by (rule partition_func_bounds)
  then show ?case by auto
qed

declare pdqsort_func.simps [simp del]

text \<open>\<open>sort.Slice\<close> calls \<open>pdqsort_func\<close> on the whole slice with the limit \<open>bits.Len(length)\<close>.\<close>

definition sort_Slice_pdq :: "(64 word \<Rightarrow> 64 word) \<Rightarrow> Process list \<Rightarrow> Process list" where
  "sort_Slice_pdq random_Next processes =
     pdqsort_func random_Next by_arrival processes 0 (length processes)
       (bits_Len (length processes)) True True"

section \<open>SJFSchedule and SJFPrioritySchedule\<close>

text \<open>
  The two functions have the same body up to the key pushed with an admitted process:
  the model shares it, with the key as the parameter \<open>key\<close>. In the admission loop the
  index \<open>i\<close> starts at \<open>processCounter\<close> and both are incremented together, so the model
  reads \<open>processes[processCounter]\<close>.
\<close>

function SJF_admit :: "(Process \<Rightarrow> int64) \<Rightarrow> Process list \<Rightarrow> vars \<Rightarrow> vars" where
  "SJF_admit key processes v =
     (if processCounter v < length processes \<and>
         ArrivalTime (processes ! processCounter v) \<le>s serviceTime v
      then SJF_admit key processes
             (v \<lparr> readyQueue := heap_Push (readyQueue v)
                      \<lparr> pp_Process = processes ! processCounter v,
                        pp_Priority = key (processes ! processCounter v) \<rparr>,
                  processCounter := processCounter v + 1 \<rparr>)
      else v)"
  by pat_completeness auto
termination
  by (relation "measure (\<lambda>(key, processes, v). length processes - processCounter v)") auto

declare SJF_admit.simps [simp del]

definition SJF_dispatch :: "vars \<Rightarrow> Process \<Rightarrow> panic + vars" where
  "SJF_dispatch v currentProcess =
     (let waitingTime' = serviceTime v - ArrivalTime currentProcess;
          start = waitingTime' + ArrivalTime currentProcess;
          turnaround = BurstDuration currentProcess + waitingTime';
          completion = BurstDuration currentProcess + ArrivalTime currentProcess + waitingTime';
          serviceTime' = serviceTime v + BurstDuration currentProcess;
          idx = int (processCounter v) - 1
      in if 0 \<le> idx \<and> idx < int (length (schedule v)) then
           Inr (v \<lparr> waitingTime := waitingTime',
                     totalWait := fadd (totalWait v) (float64_of_int64 waitingTime'),
                     totalTurnaround := fadd (totalTurnaround v) (float64_of_int64 turnaround),
                     lastCompletion := float64_of_int64 completion,
                     serviceTime := serviceTime',
                     gantt := gantt v @
                       [\<lparr> PID = ProcessID currentProcess, Start = start, Stop = serviceTime' \<rparr>],
                     schedule := (schedule v)
                       [nat idx := [Sprint (ProcessID currentProcess),
                                    Sprint (Priority currentProcess),
                                    Sprint (BurstDuration currentProcess),
                                    Sprint (ArrivalTime currentProcess), Sprint waitingTime',
                                    Sprint turnaround, Sprint completion]] \<rparr>)
         else Inl (IndexOutOfRange idx (length (schedule v))))"

lemma SJF_admit_step:
  "processCounter v < length ps \<Longrightarrow> ArrivalTime (ps ! processCounter v) \<le>s serviceTime v \<Longrightarrow>
   SJF_admit key ps v =
   SJF_admit key ps (v \<lparr> readyQueue := heap_Push (readyQueue v)
                      \<lparr> pp_Process = ps ! processCounter v,
                        pp_Priority = key (ps ! processCounter v) \<rparr>,
                  processCounter := processCounter v + 1 \<rparr>)"
  by (subst SJF_admit.simps) simp

lemma SJF_admit_stop:
  "\<not> (processCounter v < length ps \<and> ArrivalTime (ps ! processCounter v) \<le>s serviceTime v) \<Longrightarrow>
   SJF_admit key ps v = v"
  by (subst SJF_admit.simps) auto

lemma SJF_admit_counter:
  "processCounter v \<le> length ps \<Longrightarrow>
   processCounter v \<le> processCounter (SJF_admit key ps v) \<and>
   processCounter (SJF_admit key ps v) \<le> length ps \<and>
   length (readyQueue (SJF_admit key ps v)) + processCounter v =
     length (readyQueue v) + processCounter (SJF_admit key ps v)"
proof (induction key ps v rule: SJF_admit.induct)
  case (1 key ps v)
  show ?case
  proof (cases "processCounter v < length ps \<and> ArrivalTime (ps ! processCounter v) \<le>s serviceTime v")
    case True
    then show ?thesis using 1 by (simp add: SJF_admit_step)
  next
    case False
    then show ?thesis using 1 by (simp add: SJF_admit_stop)
  qed
qed

lemma SJF_dispatch_keeps:
  "SJF_dispatch v p = Inr v2 \<Longrightarrow>
   processCounter v2 = processCounter v \<and> readyQueue v2 = readyQueue v"
  by (auto simp: SJF_dispatch_def Let_def split: if_splits)

function SJF_loop :: "(Process \<Rightarrow> int64) \<Rightarrow> Process list \<Rightarrow> vars \<Rightarrow> panic + vars" where
  "SJF_loop key processes v =
     (if processCounter v < length processes then
        (let v1 = SJF_admit key processes v in
         (case heap_Pop (readyQueue v1) of
            Inl e \<Rightarrow> Inl e
          | Inr (current, rq) \<Rightarrow>
              (case SJF_dispatch (v1 \<lparr> readyQueue := rq \<rparr>) (pp_Process current) of
                 Inl e \<Rightarrow> Inl e
               | Inr v2 \<Rightarrow> SJF_loop key processes v2)))
      else Inr v)"
  by pat_completeness auto
termination
proof (relation "measure (\<lambda>(key, ps, v). 2 * (length ps - processCounter v) + length (readyQueue v))")
  show "wf (measure (\<lambda>(key, ps, v). 2 * (length ps - processCounter v) + length (readyQueue v)))"
    by simp
next
  fix key processes v x x2 xa y x2a
  assume c: "processCounter v < length processes"
    and x: "x = SJF_admit key processes v"
    and p: "heap_Pop (readyQueue x) = Inr x2" "(xa, y) = x2"
    and d: "SJF_dispatch (x \<lparr> readyQueue := y \<rparr>) (pp_Process xa) = Inr x2a"
  have "processCounter v \<le> processCounter x \<and> processCounter x \<le> length processes \<and>
        length (readyQueue x) + processCounter v = length (readyQueue v) + processCounter x"
    using c x SJF_admit_counter [of v processes key] by simp
  moreover have "Suc (length y) = length (readyQueue x)"
    using p length_heap_Pop [of "readyQueue x" xa y] by simp
  moreover have "processCounter x2a = processCounter x \<and> readyQueue x2a = y"
    using SJF_dispatch_keeps [OF d] by simp
  ultimately show "((key, processes, x2a), key, processes, v)
     \<in> measure (\<lambda>(key, ps, v). 2 * (length ps - processCounter v) + length (readyQueue v))"
    using c by simp arith
qed

declare SJF_loop.simps [simp del]

text \<open>
  The key of \<open>SJFSchedule\<close> is \<open>int(BurstDuration)\<close>; that of \<open>SJFPrioritySchedule\<close> is
  \<open>int(1.0 / float64(BurstDuration))\<close>. Go truncates towards zero when it converts a
  float to \<open>int\<close>, and leaves the result implementation-dependent when the value does not
  fit (here: the infinity of a zero burst): \<open>impl\<close> stands for that result.
\<close>

definition int_of_float64 :: "int64 \<Rightarrow> float64 \<Rightarrow> int64" where
  "int_of_float64 impl f =
     (case f of
        Finite r \<Rightarrow>
          (let k = (if 0 \<le> r then \<lfloor>r\<rfloor> else \<lceil>r\<rceil>) in
           if - (2 ^ 63) \<le> k \<and> k < 2 ^ 63 then word_of_int k else impl)
      | _ \<Rightarrow> impl)"

definition SJF_key :: "Process \<Rightarrow> int64" where
  "SJF_key p = BurstDuration p"

definition SJFPriority_key :: "int64 \<Rightarrow> Process \<Rightarrow> int64" where
  "SJFPriority_key impl p =
     int_of_float64 impl (fdiv (Finite 1) (float64_of_int64 (BurstDuration p)))"

definition SJF_run ::
  "(Process \<Rightarrow> int64) \<Rightarrow> (Process list \<Rightarrow> Process list) \<Rightarrow> Process list \<Rightarrow> panic + Output" where
  "SJF_run key pdq processes =
     (let sorted = sort_Slice pdq processes in
      case SJF_loop key sorted (init_vars (length sorted)) of
        Inl e \<Rightarrow> Inl e
      | Inr v \<Rightarrow> Inr (finish sorted v))"

definition SJFSchedule :: "(Process list \<Rightarrow> Process list) \<Rightarrow> Process list \<Rightarrow> panic + Output" where
  "SJFSchedule pdq processes = SJF_run SJF_key pdq processes"

definition SJFPrioritySchedule ::
  "int64 \<Rightarrow> (Process list \<Rightarrow> Process list) \<Rightarrow> Process list \<Rightarrow> panic + Output" where
  "SJFPrioritySchedule impl pdq processes = SJF_run (SJFPriority_key impl) pdq processes"

section \<open>Properties of FCFSSchedule\<close>

lemma FCFS_upto_0: "FCFS_upto ps 0 = init_vars (length ps)"
  by (simp add: FCFS_upto_def)

lemma FCFS_upto_Suc: "FCFS_upto ps (Suc k) = FCFS_body ps (FCFS_upto ps k) k"
  by (simp add: FCFS_upto_def)

lemma FCFS_length_schedule: "length (schedule (FCFS_upto ps k)) = length ps"
  by (induction k) (simp_all add: FCFS_upto_0 FCFS_upto_Suc init_vars_def FCFS_body_def Let_def)

lemma FCFS_length_gantt: "length (gantt (FCFS_upto ps k)) = k"
  by (induction k) (simp_all add: FCFS_upto_0 FCFS_upto_Suc init_vars_def FCFS_body_def Let_def)

lemma FCFS_schedule_kept:
  "i < k \<Longrightarrow> schedule (FCFS_upto ps k) ! i = schedule (FCFS_upto ps (Suc i)) ! i"
proof (induction k)
  case 0
  then show ?case by simp
next
  case (Suc k)
  show ?case
  proof (cases "i = k")
    case True
    then show ?thesis by simp
  next
    case False
    with Suc have "i < k" and "schedule (FCFS_upto ps k) ! i = schedule (FCFS_upto ps (Suc i)) ! i"
      by simp_all
    moreover have "schedule (FCFS_upto ps (Suc k)) ! i = schedule (FCFS_upto ps k) ! i"
      using False by (simp add: FCFS_upto_Suc [of ps k] FCFS_body_def Let_def)
    ultimately show ?thesis by simp
  qed
qed

lemma FCFS_gantt_kept:
  "i < k \<Longrightarrow> gantt (FCFS_upto ps k) ! i = gantt (FCFS_upto ps (Suc i)) ! i"
proof (induction k)
  case 0
  then show ?case by simp
next
  case (Suc k)
  show ?case
  proof (cases "i = k")
    case True
    then show ?thesis by simp
  next
    case False
    with Suc have "i < k" and "gantt (FCFS_upto ps k) ! i = gantt (FCFS_upto ps (Suc i)) ! i"
      by simp_all
    moreover have "gantt (FCFS_upto ps (Suc k)) ! i = gantt (FCFS_upto ps k) ! i"
      using \<open>i < k\<close> by (simp add: FCFS_upto_Suc [of ps k] FCFS_body_def Let_def nth_append FCFS_length_gantt)
    ultimately show ?thesis by simp
  qed
qed

text \<open>
  C7. In \<open>FCFSSchedule\<close> the waiting time starts at 0 and, for the process at index \<open>i\<close>,
  is assigned \<open>serviceTime - ArrivalTime\<close> only when its arrival time is positive;
  otherwise it keeps the value the previous iteration left. This value is the one in the
  process's schedule row (wait, turnaround, completion) and in the start of its interval.
\<close>

theorem FCFS_stale_wait:
  assumes "i < length processes"
  shows "waitingTime (FCFS_upto processes 0) = 0 \<and>
    waitingTime (FCFS_upto processes (Suc i)) =
      (if 0 <s ArrivalTime (processes ! i)
       then serviceTime (FCFS_upto processes i) - ArrivalTime (processes ! i)
       else waitingTime (FCFS_upto processes i)) \<and>
    (\<exists>out. FCFSSchedule processes = Inr out \<and>
      out_schedule out ! i =
        [Sprint (ProcessID (processes ! i)), Sprint (Priority (processes ! i)),
         Sprint (BurstDuration (processes ! i)), Sprint (ArrivalTime (processes ! i)),
         Sprint (waitingTime (FCFS_upto processes (Suc i))),
         Sprint (BurstDuration (processes ! i) + waitingTime (FCFS_upto processes (Suc i))),
         Sprint (BurstDuration (processes ! i) + ArrivalTime (processes ! i) +
                 waitingTime (FCFS_upto processes (Suc i)))] \<and>
      out_gantt out ! i =
        \<lparr> PID = ProcessID (processes ! i),
          Start = waitingTime (FCFS_upto processes (Suc i)) + ArrivalTime (processes ! i),
          Stop = serviceTime (FCFS_upto processes i) + BurstDuration (processes ! i) \<rparr>)"
proof -
  have w0: "waitingTime (FCFS_upto processes 0) = 0"
    by (simp add: FCFS_upto_0 init_vars_def)
  have w: "waitingTime (FCFS_upto processes (Suc i)) =
      (if 0 <s ArrivalTime (processes ! i)
       then serviceTime (FCFS_upto processes i) - ArrivalTime (processes ! i)
       else waitingTime (FCFS_upto processes i))"
    by (simp add: FCFS_upto_Suc FCFS_body_def Let_def)
  have len: "i < length (schedule (FCFS_upto processes i))"
    using assms by (simp add: FCFS_length_schedule)
  have row: "schedule (FCFS_upto processes (Suc i)) ! i =
        [Sprint (ProcessID (processes ! i)), Sprint (Priority (processes ! i)),
         Sprint (BurstDuration (processes ! i)), Sprint (ArrivalTime (processes ! i)),
         Sprint (waitingTime (FCFS_upto processes (Suc i))),
         Sprint (BurstDuration (processes ! i) + waitingTime (FCFS_upto processes (Suc i))),
         Sprint (BurstDuration (processes ! i) + ArrivalTime (processes ! i) +
                 waitingTime (FCFS_upto processes (Suc i)))]"
    using len by (simp add: FCFS_upto_Suc FCFS_body_def Let_def)
  have slice: "gantt (FCFS_upto processes (Suc i)) ! i =
        \<lparr> PID = ProcessID (processes ! i),
          Start = waitingTime (FCFS_upto processes (Suc i)) + ArrivalTime (processes ! i),
          Stop = serviceTime (FCFS_upto processes i) + BurstDuration (processes ! i) \<rparr>"
    by (simp add: FCFS_upto_Suc FCFS_body_def Let_def nth_append FCFS_length_gantt)
  have "schedule (FCFS_upto processes (length processes)) ! i =
        schedule (FCFS_upto processes (Suc i)) ! i"
    using assms by (rule FCFS_schedule_kept)
  moreover have "gantt (FCFS_upto processes (length processes)) ! i =
        gantt (FCFS_upto processes (Suc i)) ! i"
    using assms by (rule FCFS_gantt_kept)
  ultimately show ?thesis
    using w0 w row slice by (simp add: FCFSSchedule_def finish_def Let_def)
qed

theorem FCFS_stale_wait_witness:
  "(1::nat) < length
     [\<lparr>ProcessID = 1, ArrivalTime = 0, BurstDuration = 5, Priority = 0\<rparr>,
      \<lparr>ProcessID = 2, ArrivalTime = 0, BurstDuration = 3, Priority = 0\<rparr>] \<and>
   waitingTime (FCFS_upto
     [\<lparr>ProcessID = 1, ArrivalTime = 0, BurstDuration = 5, Priority = 0\<rparr>,
      \<lparr>ProcessID = 2, ArrivalTime = 0, BurstDuration = 3, Priority = 0\<rparr>] 2) = 0 \<and>
   (\<exists>out. FCFSSchedule
     [\<lparr>ProcessID = 1, ArrivalTime = 0, BurstDuration = 5, Priority = 0\<rparr>,
      \<lparr>ProcessID = 2, ArrivalTime = 0, BurstDuration = 3, Priority = 0\<rparr>] = Inr out \<and>
     out_schedule out ! 1 = [''2'', ''0'', ''3'', ''0'', ''0'', ''3'', ''3''] \<and>
     out_gantt out ! 1 = \<lparr>PID = 2, Start = 0, Stop = 8\<rparr>)"
proof -
  let ?ps = "[\<lparr>ProcessID = 1, ArrivalTime = 0, BurstDuration = 5, Priority = 0\<rparr>,
      \<lparr>ProcessID = 2, ArrivalTime = 0, BurstDuration = 3, Priority = 0\<rparr>]"
  have h: "(1::nat) < length ?ps" by simp
  have w1: "waitingTime (FCFS_upto ?ps (Suc 0)) = 0"
    and s1: "serviceTime (FCFS_upto ?ps (Suc 0)) = 5"
    by (simp_all add: FCFS_upto_Suc FCFS_upto_0 FCFS_body_def init_vars_def Let_def)
  have sp: "Sprint 0 = ''0''" "Sprint 2 = ''2''" "Sprint 3 = ''3''"
    by (simp_all add: Sprint_def digits10.simps)
  have two: "Suc 1 = 2" by simp
  note t = FCFS_stale_wait [OF h, unfolded two]
  from t have w2: "waitingTime (FCFS_upto ?ps 2) = 0"
    by (simp add: w1)
  from t obtain out where out: "FCFSSchedule ?ps = Inr out"
    and row: "out_schedule out ! 1 =
        [Sprint 2, Sprint 0, Sprint 3, Sprint 0, Sprint (waitingTime (FCFS_upto ?ps 2)),
         Sprint (3 + waitingTime (FCFS_upto ?ps 2)),
         Sprint (3 + 0 + waitingTime (FCFS_upto ?ps 2))]"
    and slice: "out_gantt out ! 1 =
        \<lparr> PID = 2, Start = waitingTime (FCFS_upto ?ps 2) + 0,
          Stop = serviceTime (FCFS_upto ?ps 1) + 3 \<rparr>"
    by auto
  from row have "out_schedule out ! 1 = [''2'', ''0'', ''3'', ''0'', ''0'', ''3'', ''3'']"
    by (simp add: w2 sp)
  moreover from slice have "out_gantt out ! 1 = \<lparr>PID = 2, Start = 0, Stop = 8\<rparr>"
    using s1 by (simp add: w2)
  ultimately show ?thesis
    using h w2 out by blast
qed

text \<open>
  C3. For the batch of two processes that both arrive at 0, with bursts 5 and 3,
  \<open>FCFSSchedule\<close> reports the average wait 0, not 2.5: neither arrival time is positive,
  so the waiting time stays 0 for both (C7).
\<close>

theorem FCFS_average_wait_example:
  "FCFSSchedule
     [\<lparr>ProcessID = 1, ArrivalTime = 0, BurstDuration = 5, Priority = 0\<rparr>,
      \<lparr>ProcessID = 2, ArrivalTime = 0, BurstDuration = 3, Priority = 0\<rparr>] =
   Inr \<lparr>out_gantt = [\<lparr>PID = 1, Start = 0, Stop = 5\<rparr>, \<lparr>PID = 2, Start = 0, Stop = 8\<rparr>],
        out_schedule =
          [[''1'', ''0'', ''5'', ''0'', ''0'', ''5'', ''5''],
           [''2'', ''0'', ''3'', ''0'', ''0'', ''3'', ''3'']],
        aveWait = Finite 0, aveTurnaround = Finite 4, aveThroughput = Finite (2 / 3),
        processes_after =
          [\<lparr>ProcessID = 1, ArrivalTime = 0, BurstDuration = 5, Priority = 0\<rparr>,
           \<lparr>ProcessID = 2, ArrivalTime = 0, BurstDuration = 3, Priority = 0\<rparr>]\<rparr>"
  by code_simp

theorem FCFS_average_wait_counterexample:
  "\<not> (\<exists>out. FCFSSchedule
     [\<lparr>ProcessID = 1, ArrivalTime = 0, BurstDuration = 5, Priority = 0\<rparr>,
      \<lparr>ProcessID = 2, ArrivalTime = 0, BurstDuration = 3, Priority = 0\<rparr>] = Inr out \<and>
     aveWait out = Finite (5 / 2))"
proof -
  have upto2: "[0..<2] = [0, Suc 0]" by (simp add: upt_rec)
  show ?thesis
    by (simp add: FCFSSchedule_def finish_def FCFS_upto_def FCFS_body_def init_vars_def
          float64_of_len_def float64_of_int64_def upto2 Let_def)
qed

section \<open>Properties of RRSchedule\<close>

text \<open>
  C4. For the batch \<open>{id 1, arrival 0, burst 3}, {id 2, arrival 1, burst 2}\<close> and the
  quantum 1, \<open>RRSchedule\<close> produces the intervals (1,0,1), (1,1,2), (2,2,3), (1,3,4) and
  then (2,4,5): five intervals, which cover both bursts in full.
\<close>

theorem RR_trace_example:
  "RRSchedule
     [\<lparr>ProcessID = 1, ArrivalTime = 0, BurstDuration = 3, Priority = 0\<rparr>,
      \<lparr>ProcessID = 2, ArrivalTime = 1, BurstDuration = 2, Priority = 0\<rparr>] =
   Inr \<lparr>out_gantt =
          [\<lparr>PID = 1, Start = 0, Stop = 1\<rparr>, \<lparr>PID = 1, Start = 1, Stop = 2\<rparr>,
           \<lparr>PID = 2, Start = 2, Stop = 3\<rparr>, \<lparr>PID = 1, Start = 3, Stop = 4\<rparr>,
           \<lparr>PID = 2, Start = 4, Stop = 5\<rparr>],
        out_schedule =
          [[''1'', ''0'', ''1'', ''3'', ''3'', ''4'', ''4''],
           [''2'', ''0'', ''1'', ''4'', ''3'', ''4'', ''5'']],
        aveWait = Finite 4, aveTurnaround = Finite (13 / 2), aveThroughput = Finite (2 / 5),
        processes_after =
          [\<lparr>ProcessID = 1, ArrivalTime = 0, BurstDuration = 3, Priority = 0\<rparr>,
           \<lparr>ProcessID = 2, ArrivalTime = 1, BurstDuration = 2, Priority = 0\<rparr>]\<rparr>"
  by code_simp

theorem RR_trace_counterexample:
  "\<not> (\<exists>out. RRSchedule
     [\<lparr>ProcessID = 1, ArrivalTime = 0, BurstDuration = 3, Priority = 0\<rparr>,
      \<lparr>ProcessID = 2, ArrivalTime = 1, BurstDuration = 2, Priority = 0\<rparr>] = Inr out \<and>
     out_gantt out =
       [\<lparr>PID = 1, Start = 0, Stop = 1\<rparr>, \<lparr>PID = 1, Start = 1, Stop = 2\<rparr>,
        \<lparr>PID = 2, Start = 2, Stop = 3\<rparr>, \<lparr>PID = 1, Start = 3, Stop = 4\<rparr>])"
proof -
  have "RRSchedule
     [\<lparr>ProcessID = 1, ArrivalTime = 0, BurstDuration = 3, Priority = 0\<rparr>,
      \<lparr>ProcessID = 2, ArrivalTime = 1, BurstDuration = 2, Priority = 0\<rparr>] =
   Inr \<lparr>out_gantt =
          [\<lparr>PID = 1, Start = 0, Stop = 1\<rparr>, \<lparr>PID = 1, Start = 1, Stop = 2\<rparr>,
           \<lparr>PID = 2, Start = 2, Stop = 3\<rparr>, \<lparr>PID = 1, Start = 3, Stop = 4\<rparr>,
           \<lparr>PID = 2, Start = 4, Stop = 5\<rparr>],
        out_schedule =
          [[''1'', ''0'', ''1'', ''3'', ''3'', ''4'', ''4''],
           [''2'', ''0'', ''1'', ''4'', ''3'', ''4'', ''5'']],
        aveWait = Finite 4, aveTurnaround = Finite (13 / 2), aveThroughput = Finite (2 / 5),
        processes_after =
          [\<lparr>ProcessID = 1, ArrivalTime = 0, BurstDuration = 3, Priority = 0\<rparr>,
           \<lparr>ProcessID = 2, ArrivalTime = 1, BurstDuration = 2, Priority = 0\<rparr>]\<rparr>"
    by code_simp
  then show ?thesis by simp
qed

section \<open>The heap keeps its elements\<close>

lemma mset_Swap:
  "i < length h \<Longrightarrow> j < length h \<Longrightarrow> mset (PriorityQueue_Swap h i j) = mset h"
  by (simp add: PriorityQueue_Swap_def mset_swap)

lemma mset_up: "j < length h \<Longrightarrow> mset (up h j) = mset h"
proof (induction h j rule: up.induct)
  case (1 h j)
  show ?case
  proof (cases "(j - 1) div 2 = j \<or> \<not> PriorityQueue_Less h j ((j - 1) div 2)")
    case True
    then show ?thesis by (subst up.simps) (simp add: Let_def)
  next
    case False
    have lt: "(j - 1) div 2 < length h" using "1.prems" by simp
    have "up h j = up (PriorityQueue_Swap h ((j - 1) div 2) j) ((j - 1) div 2)"
      using False by (subst up.simps) (simp add: Let_def)
    also have "mset \<dots> = mset (PriorityQueue_Swap h ((j - 1) div 2) j)"
      using False lt "1.IH" [of "(j - 1) div 2"] by simp
    also have "\<dots> = mset h"
      using lt "1.prems" by (rule mset_Swap)
    finally show ?thesis .
  qed
qed

definition child :: "PriorityQueue \<Rightarrow> nat \<Rightarrow> nat \<Rightarrow> nat" where
  "child h i n =
     (if 2 * i + 1 + 1 < n \<and> PriorityQueue_Less h (2 * i + 1 + 1) (2 * i + 1)
      then 2 * i + 1 + 1 else 2 * i + 1)"

lemma down_unfold:
  "down h i n =
     (if n \<le> 2 * i + 1 then h
      else if \<not> PriorityQueue_Less h (child h i n) i then h
      else down (PriorityQueue_Swap h i (child h i n)) (child h i n) n)"
  by (rule trans [OF down.simps]) (simp only: Let_def child_def)

lemma child_bounds: "\<not> n \<le> 2 * i + 1 \<Longrightarrow> i < child h i n \<and> child h i n < n"
  by (simp add: child_def)

lemma mset_down: "n \<le> length h \<Longrightarrow> mset (down h i n) = mset h"
proof (induction h i n rule: down.induct)
  case (1 h i n)
  show ?case
  proof (cases "n \<le> 2 * i + 1 \<or> \<not> PriorityQueue_Less h (child h i n) i")
    case True
    then show ?thesis by (subst down_unfold) auto
  next
    case False
    then have j: "child h i n < n" and i: "i < child h i n"
      using child_bounds [of n i h] by simp_all
    have "down h i n = down (PriorityQueue_Swap h i (child h i n)) (child h i n) n"
      using False by (subst down_unfold) simp
    also have "mset \<dots> = mset (PriorityQueue_Swap h i (child h i n))"
      using False "1.IH" [of "2 * i + 1" "child h i n"] "1.prems" by (simp add: child_def)
    also have "\<dots> = mset h"
      using i j "1.prems" by (intro mset_Swap) simp_all
    finally show ?thesis .
  qed
qed

lemma mset_heap_Push: "mset (heap_Push h x) = add_mset x (mset h)"
  by (simp add: heap_Push_def PriorityQueue_Push_def Let_def mset_up)

lemma heap_Pop_empty: "heap_Pop [] = Inl (IndexOutOfRange (- 1) 0)"
  by (simp add: heap_Pop_def)

lemma heap_Pop_nonempty:
  assumes "h \<noteq> []"
  shows "heap_Pop h =
         Inr (PriorityQueue_Pop (down (PriorityQueue_Swap h 0 (length h - 1)) 0 (length h - 1)))"
proof -
  have "nat (int (length h) - 1) = length h - 1" by arith
  moreover have "\<not> int (length h) - 1 < 0" using assms by (cases h) simp_all
  ultimately show ?thesis by (simp add: heap_Pop_def Let_def)
qed

lemma mset_heap_Pop:
  assumes "heap_Pop h = Inr (x, h')"
  shows "add_mset x (mset h') = mset h"
proof -
  from assms have ne: "h \<noteq> []" by (auto simp: heap_Pop_def)
  define n where "n = length h - 1"
  define h2 where "h2 = down (PriorityQueue_Swap h 0 n) 0 n"
  have len: "length h2 = Suc n" using ne by (simp add: h2_def n_def)
  have m: "mset h2 = mset h"
    using ne by (simp add: h2_def n_def mset_down mset_Swap)
  from assms have "PriorityQueue_Pop h2 = (x, h')"
    using heap_Pop_nonempty [OF ne] by (simp add: h2_def n_def)
  then have "x = h2 ! n" and "h' = take n h2"
    using len by (simp_all add: PriorityQueue_Pop_def)
  then have "h' @ [x] = h2"
    using len by (simp add: take_Suc_conv_app_nth [symmetric])
  then have "mset h2 = mset (h' @ [x])" by simp
  with m show ?thesis by simp
qed

section \<open>One iteration of each loop\<close>

lemma RR_loop_done:
  "\<not> (0 < length (queue v) \<or> processCounter v < length ps) \<Longrightarrow> RR_loop ps v = Inr v"
  by (subst RR_loop.simps) simp

lemma RR_loop_dispatch:
  "0 < length (queue v) \<or> processCounter v < length ps \<Longrightarrow>
   queue (RR_admit ps v) = p # rest \<Longrightarrow>
   RR_loop ps v =
     (case RR_dispatch (RR_admit ps v \<lparr> queue := rest \<rparr>) p of
        Inl e \<Rightarrow> Inl e
      | Inr v2 \<Rightarrow> RR_loop ps v2)"
  by (subst RR_loop.simps) (simp add: Let_def)

lemma RR_loop_idle:
  "0 < length (queue v) \<or> processCounter v < length ps \<Longrightarrow>
   queue (RR_admit ps v) = [] \<Longrightarrow>
   RR_loop ps v = RR_loop ps (v \<lparr> serviceTime := serviceTime v + 1 \<rparr>)"
  using admit_empty [of ps v] by (subst RR_loop.simps) (simp add: Let_def)

lemma SJF_loop_done:
  "\<not> processCounter v < length ps \<Longrightarrow> SJF_loop key ps v = Inr v"
  by (subst SJF_loop.simps) simp

lemma SJF_loop_step:
  "processCounter v < length ps \<Longrightarrow>
   SJF_loop key ps v =
     (case heap_Pop (readyQueue (SJF_admit key ps v)) of
        Inl e \<Rightarrow> Inl e
      | Inr (current, rq) \<Rightarrow>
          (case SJF_dispatch (SJF_admit key ps v \<lparr> readyQueue := rq \<rparr>) (pp_Process current) of
             Inl e \<Rightarrow> Inl e
           | Inr v2 \<Rightarrow> SJF_loop key ps v2))"
  by (subst SJF_loop.simps) (simp add: Let_def)

lemma insertionSort_Nil: "insertionSort_func lt [] 0 0 = []"
  by (simp add: insertionSort_func_def)

lemma insertionSort_single: "insertionSort_func lt [x] 0 (Suc 0) = [x]"
  by (simp add: insertionSort_func_def)

text \<open>
  C9. For the empty batch no scheduler fails: float division by zero does not panic. Each
  hands on an empty trace and an empty table, and each of the three aggregates is
  \<open>0 / 0\<close>, which is NaN. There is no guard and no separate "no data" result.
\<close>

theorem empty_batch_gives_NaN:
  "FCFSSchedule [] =
     Inr \<lparr>out_gantt = [], out_schedule = [], aveWait = NaN, aveTurnaround = NaN,
          aveThroughput = NaN, processes_after = []\<rparr> \<and>
   SJFSchedule pdq [] =
     Inr \<lparr>out_gantt = [], out_schedule = [], aveWait = NaN, aveTurnaround = NaN,
          aveThroughput = NaN, processes_after = []\<rparr> \<and>
   SJFPrioritySchedule impl pdq [] =
     Inr \<lparr>out_gantt = [], out_schedule = [], aveWait = NaN, aveTurnaround = NaN,
          aveThroughput = NaN, processes_after = []\<rparr> \<and>
   RRSchedule [] =
     Inr \<lparr>out_gantt = [], out_schedule = [], aveWait = NaN, aveTurnaround = NaN,
          aveThroughput = NaN, processes_after = []\<rparr>"
proof -
  have fin: "finish [] (init_vars 0) =
     \<lparr>out_gantt = [], out_schedule = [], aveWait = NaN, aveTurnaround = NaN,
          aveThroughput = NaN, processes_after = []\<rparr>"
    by (simp add: finish_def init_vars_def float64_of_len_def)
  have f: "FCFSSchedule [] = Inr (finish [] (init_vars 0))"
    by (simp add: FCFSSchedule_def FCFS_upto_def)
  have srt: "sort_Slice pdq [] = []"
    by (simp add: sort_Slice_def insertionSort_Nil)
  have s: "SJF_run key pdq [] = Inr (finish [] (init_vars 0))" for key
    by (simp add: SJF_run_def srt SJF_loop_done init_vars_def)
  have r: "RRSchedule [] = Inr (finish [] (init_vars 0))"
    by (simp add: RRSchedule_def RR_loop_done init_vars_def)
  show ?thesis
    by (simp add: f s r fin SJFSchedule_def SJFPrioritySchedule_def)
qed

theorem empty_batch_NaN_counterexample:
  "\<not> (\<exists>out. FCFSSchedule [] = Inr out \<and> aveWait out \<noteq> NaN \<and> aveTurnaround out \<noteq> NaN \<and>
       aveThroughput out \<noteq> NaN)"
  by (simp add: FCFSSchedule_def FCFS_upto_def finish_def init_vars_def float64_of_len_def)

lemma SJF_admit_none:
  "0 <s ArrivalTime p \<Longrightarrow> SJF_admit key [p] (init_vars (Suc 0)) = init_vars (Suc 0)"
  by (rule SJF_admit_stop) (simp add: init_vars_def word_sle_eq word_sless_alt)

text \<open>
  C2. A batch whose only process arrives at time 1: the admission loop admits nothing at
  \<open>serviceTime = 0\<close>, the clock is not advanced, and \<open>heap.Pop\<close> runs on the empty queue.
\<close>

theorem SJF_pops_empty_queue:
  "SJFSchedule pdq [\<lparr>ProcessID = 1, ArrivalTime = 1, BurstDuration = 1, Priority = 0\<rparr>] =
     Inl (IndexOutOfRange (- 1) 0) \<and>
   SJFPrioritySchedule impl pdq
     [\<lparr>ProcessID = 1, ArrivalTime = 1, BurstDuration = 1, Priority = 0\<rparr>] =
     Inl (IndexOutOfRange (- 1) 0)"
proof -
  let ?p = "\<lparr>ProcessID = 1, ArrivalTime = 1, BurstDuration = 1, Priority = 0\<rparr>"
  have srt: "sort_Slice pdq [?p] = [?p]"
    by (simp add: sort_Slice_def insertionSort_single)
  have adm: "SJF_admit key [?p] (init_vars (Suc 0)) = init_vars (Suc 0)" for key
    by (rule SJF_admit_none) (simp add: word_sless_alt)
  have pc: "processCounter (init_vars (Suc 0)) < length [?p]"
    and rq: "readyQueue (init_vars (Suc 0)) = []"
    by (simp_all add: init_vars_def)
  have "SJF_loop key [?p] (init_vars (Suc 0)) = Inl (IndexOutOfRange (- 1) 0)" for key
    by (simp add: SJF_loop_step [OF pc] adm rq heap_Pop_empty)
  then show ?thesis
    by (simp add: SJFSchedule_def SJFPrioritySchedule_def SJF_run_def srt)
qed

section \<open>When RRSchedule panics\<close>

definition index_ok :: "nat \<Rightarrow> Process \<Rightarrow> bool" where
  "index_ok n p = (0 \<le> sint (ProcessID p - 1) \<and> sint (ProcessID p - 1) < int n)"

definition pending :: "Process list \<Rightarrow> vars \<Rightarrow> Process set" where
  "pending ps v = set (queue v) \<union> set (drop (processCounter v) ps)"

lemma RR_admit_schedule: "schedule (RR_admit ps v) = schedule v"
proof (induction ps v rule: RR_admit.induct)
  case (1 ps v)
  show ?case
  proof (cases "processCounter v < length ps \<and> ArrivalTime (ps ! processCounter v) \<le>s serviceTime v")
    case True
    then show ?thesis using 1 by (simp add: RR_admit_step)
  next
    case False
    then show ?thesis by (simp add: RR_admit_stop)
  qed
qed

lemma RR_admit_pending: "pending ps (RR_admit ps v) = pending ps v"
proof (induction ps v rule: RR_admit.induct)
  case (1 ps v)
  show ?case
  proof (cases "processCounter v < length ps \<and> ArrivalTime (ps ! processCounter v) \<le>s serviceTime v")
    case True
    then have "pending ps (RR_admit ps v) =
               pending ps (v \<lparr> queue := queue v @ [ps ! processCounter v],
                                processCounter := processCounter v + 1 \<rparr>)"
      using 1 by (simp add: RR_admit_step)
    also have "\<dots> = pending ps v"
      using True by (simp add: pending_def Cons_nth_drop_Suc [symmetric])
    finally show ?thesis .
  next
    case False
    then show ?thesis by (simp add: RR_admit_stop)
  qed
qed

lemma RR_dispatch_Inl: "(\<exists>e. RR_dispatch v p = Inl e) \<longleftrightarrow> \<not> index_ok (length (schedule v)) p"
  by (auto simp: RR_dispatch_def index_ok_def Let_def)

lemma RR_dispatch_Inr:
  assumes "RR_dispatch v p = Inr v2"
  shows "length (schedule v2) = length (schedule v) \<and> processCounter v2 = processCounter v \<and>
         (queue v2 = queue v \<or> (\<exists>b. queue v2 = queue v @ [p \<lparr> BurstDuration := b \<rparr>]))"
  using assms by (auto simp: RR_dispatch_def Let_def split: if_splits)

lemma index_ok_burst [simp]: "index_ok n (p \<lparr> BurstDuration := b \<rparr>) = index_ok n p"
  by (simp add: index_ok_def)

lemma RR_loop_panics_iff:
  "(\<exists>e. RR_loop ps v = Inl e) \<longleftrightarrow> (\<exists>p \<in> pending ps v. \<not> index_ok (length (schedule v)) p)"
proof (induction ps v rule: RR_loop.induct)
  case (1 ps v)
  show ?case
  proof (cases "0 < length (queue v) \<or> processCounter v < length ps")
    case False
    then show ?thesis by (simp add: RR_loop_done pending_def)
  next
    case c: True
    define v1 where "v1 = RR_admit ps v"
    have pend: "pending ps v1 = pending ps v" and sch: "schedule v1 = schedule v"
      by (simp_all add: v1_def RR_admit_pending RR_admit_schedule)
    show ?thesis
    proof (cases "queue v1")
      case Nil
      then have eq: "RR_loop ps v = RR_loop ps (v \<lparr> serviceTime := serviceTime v + 1 \<rparr>)"
        using c by (simp add: RR_loop_idle v1_def)
      have v1v: "v1 = v" using Nil admit_empty [of ps v] by (simp add: v1_def)
      have "(\<exists>e. RR_loop ps (v1 \<lparr> serviceTime := serviceTime v1 + 1 \<rparr>) = Inl e) \<longleftrightarrow>
            (\<exists>p \<in> pending ps (v1 \<lparr> serviceTime := serviceTime v1 + 1 \<rparr>).
               \<not> index_ok (length (schedule (v1 \<lparr> serviceTime := serviceTime v1 + 1 \<rparr>))) p)"
        using c Nil by (intro "1.IH"(1)) (simp_all add: v1_def)
      then show ?thesis using eq v1v by (simp add: pending_def)
    next
      case (Cons p rest)
      have eq: "RR_loop ps v =
        (case RR_dispatch (v1 \<lparr> queue := rest \<rparr>) p of Inl e \<Rightarrow> Inl e | Inr v2 \<Rightarrow> RR_loop ps v2)"
        using c Cons by (simp add: RR_loop_dispatch v1_def)
      have pv: "pending ps v = insert p (pending ps (v1 \<lparr> queue := rest \<rparr>))"
        using Cons pend by (auto simp: pending_def)
      show ?thesis
      proof (cases "RR_dispatch (v1 \<lparr> queue := rest \<rparr>) p")
        case (Inl e)
        then have "\<not> index_ok (length (schedule v)) p"
          using RR_dispatch_Inl [of "v1 \<lparr> queue := rest \<rparr>" p] sch by auto
        then show ?thesis using eq Inl pv by auto
      next
        case (Inr v2)
        then have ok: "index_ok (length (schedule v)) p"
          using RR_dispatch_Inl [of "v1 \<lparr> queue := rest \<rparr>" p] sch by auto
        have ih: "(\<exists>e. RR_loop ps v2 = Inl e) \<longleftrightarrow>
                  (\<exists>p \<in> pending ps v2. \<not> index_ok (length (schedule v2)) p)"
          using c Cons Inr by (intro "1.IH"(2)) (simp_all add: v1_def)
        have len: "length (schedule v2) = length (schedule v)"
          and pc: "processCounter v2 = processCounter v1"
          and q: "queue v2 = rest \<or> (\<exists>b. queue v2 = rest @ [p \<lparr> BurstDuration := b \<rparr>])"
          using RR_dispatch_Inr [OF Inr] sch by simp_all
        have "(\<exists>q \<in> pending ps v2. \<not> index_ok (length (schedule v)) q) \<longleftrightarrow>
              (\<exists>q \<in> pending ps (v1 \<lparr> queue := rest \<rparr>). \<not> index_ok (length (schedule v)) q)"
          using q pc ok by (auto simp: pending_def)
        then show ?thesis using eq Inr ih len pv ok by simp
      qed
    qed
  qed
qed

lemma index_ok_id:
  assumes "n < 2 ^ 63"
  shows "index_ok n p \<longleftrightarrow> 1 \<le> sint (ProcessID p) \<and> sint (ProcessID p) \<le> int n"
proof (cases "sint (ProcessID p) = - (2 ^ 63)")
  case True
  then have "word_of_int (sint (ProcessID p)) = (word_of_int (- (2 ^ 63)) :: int64)" by simp
  then have "ProcessID p = word_of_int (- (2 ^ 63))" by simp
  then have "sint (ProcessID p - 1) = 2 ^ 63 - 1" by simp
  then show ?thesis using True assms by (simp add: index_ok_def)
next
  case False
  then have "- 9223372036854775808 \<le> sint (ProcessID p) - sint (1::int64)"
    using sint_bounds64 [of "ProcessID p"] by simp
  moreover have "sint (ProcessID p) - sint (1::int64) < 9223372036854775808"
    using sint_bounds64 [of "ProcessID p"] by simp
  ultimately have "sint (ProcessID p - 1) = sint (ProcessID p) - 1"
    using sint_sub_no_wrap [of "ProcessID p" 1] by simp
  then show ?thesis by (auto simp: index_ok_def)
qed

text \<open>
  C10. \<open>RRSchedule\<close> writes a dispatch's row at index \<open>ProcessID - 1\<close> of a table as long
  as the batch, and ends in an index-out-of-range panic exactly when some process of the
  batch has an id outside \<open>1 .. len(processes)\<close>. A duplicate id inside that range does
  not make it panic: the later dispatch overwrites the row, and the row of the id that
  is missing stays empty.
\<close>

theorem RR_panics_iff_id_out_of_range:
  assumes "length processes < 2 ^ 63"
  shows "(\<exists>e. RRSchedule processes = Inl e) \<longleftrightarrow>
         (\<exists>p \<in> set processes.
            \<not> (1 \<le> sint (ProcessID p) \<and> sint (ProcessID p) \<le> int (length processes)))"
proof -
  have "(\<exists>e. RRSchedule processes = Inl e) \<longleftrightarrow>
        (\<exists>e. RR_loop processes (init_vars (length processes)) = Inl e)"
    by (auto simp: RRSchedule_def split: sum.splits)
  also have "\<dots> \<longleftrightarrow> (\<exists>p \<in> pending processes (init_vars (length processes)).
      \<not> index_ok (length (schedule (init_vars (length processes)))) p)"
    by (rule RR_loop_panics_iff)
  also have "\<dots> \<longleftrightarrow> (\<exists>p \<in> set processes. \<not> index_ok (length processes) p)"
    by (simp add: pending_def init_vars_def)
  also have "\<dots> \<longleftrightarrow> (\<exists>p \<in> set processes.
            \<not> (1 \<le> sint (ProcessID p) \<and> sint (ProcessID p) \<le> int (length processes)))"
    using index_ok_id [OF assms] by simp
  finally show ?thesis .
qed

theorem RR_duplicate_id_counterexample:
  "RRSchedule
     [\<lparr>ProcessID = 1, ArrivalTime = 0, BurstDuration = 1, Priority = 0\<rparr>,
      \<lparr>ProcessID = 1, ArrivalTime = 0, BurstDuration = 1, Priority = 0\<rparr>] =
   Inr \<lparr>out_gantt = [\<lparr>PID = 1, Start = 0, Stop = 1\<rparr>, \<lparr>PID = 1, Start = 1, Stop = 2\<rparr>],
        out_schedule = [[''1'', ''0'', ''1'', ''1'', ''1'', ''2'', ''2''], []],
        aveWait = Finite (1 / 2), aveTurnaround = Finite (3 / 2), aveThroughput = Finite 1,
        processes_after =
          [\<lparr>ProcessID = 1, ArrivalTime = 0, BurstDuration = 1, Priority = 0\<rparr>,
           \<lparr>ProcessID = 1, ArrivalTime = 0, BurstDuration = 1, Priority = 0\<rparr>]\<rparr>"
  by code_simp

theorem RR_panics_witness:
  "length [\<lparr>ProcessID = 0, ArrivalTime = 0, BurstDuration = 1, Priority = 0\<rparr>] < 2 ^ 63 \<and>
   (\<exists>e. RRSchedule [\<lparr>ProcessID = 0, ArrivalTime = 0, BurstDuration = 1, Priority = 0\<rparr>] = Inl e)"
proof -
  let ?ps = "[\<lparr>ProcessID = 0, ArrivalTime = 0, BurstDuration = 1, Priority = 0\<rparr>]"
  have h: "length ?ps < 2 ^ 63" by simp
  show ?thesis using h RR_panics_iff_id_out_of_range [OF h] by simp
qed

section \<open>sort.Slice on a short slice is a stable insertion sort\<close>

text \<open>Insertion of \<open>x\<close> into a list from its right end, as the inner loop does it.\<close>

fun ins_rev :: "('a \<Rightarrow> 'a \<Rightarrow> bool) \<Rightarrow> 'a \<Rightarrow> 'a list \<Rightarrow> 'a list" where
  "ins_rev lt x [] = [x]"
| "ins_rev lt x (y # ys) = (if lt x y then y # ins_rev lt x ys else x # y # ys)"

lemma insertion_inner_step:
  "a < j \<Longrightarrow> lt (data ! j) (data ! (j - 1)) \<Longrightarrow>
   insertion_inner lt data a j =
   insertion_inner lt (data [j := data ! (j - 1), j - 1 := data ! j]) a (j - 1)"
  by (subst insertion_inner.simps) simp

lemma insertion_inner_stop:
  "\<not> (a < j \<and> lt (data ! j) (data ! (j - 1))) \<Longrightarrow> insertion_inner lt data a j = data"
  by (subst insertion_inner.simps) auto

lemma insertion_inner_ins:
  "insertion_inner lt (rev r @ x # rest) 0 (length r) = rev (ins_rev lt x r) @ rest"
proof (induction r arbitrary: rest)
  case Nil
  show ?case by (simp add: insertion_inner_stop)
next
  case (Cons y r)
  let ?d = "rev (y # r) @ x # rest"
  have dj: "?d ! length (y # r) = x"
    by (metis length_rev nth_append_length)
  have dj1: "?d ! (length (y # r) - 1) = y"
    by (simp add: nth_append)
  show ?case
  proof (cases "lt x y")
    case True
    have upd: "?d [length (y # r) := y, length (y # r) - 1 := x] = rev r @ x # y # rest"
      by (simp add: list_update_append)
    have "insertion_inner lt ?d 0 (length (y # r)) =
          insertion_inner lt (?d [length (y # r) := ?d ! (length (y # r) - 1),
                                  length (y # r) - 1 := ?d ! length (y # r)]) 0 (length (y # r) - 1)"
      using True dj dj1 by (intro insertion_inner_step) simp_all
    also have "\<dots> = insertion_inner lt (rev r @ x # y # rest) 0 (length r)"
      using upd dj dj1 by simp
    also have "\<dots> = rev (ins_rev lt x r) @ y # rest"
      by (rule Cons.IH)
    finally show ?thesis using True by simp
  next
    case False
    then have "insertion_inner lt ?d 0 (length (y # r)) = ?d"
      using dj dj1 by (intro insertion_inner_stop) simp
    then show ?thesis using False by simp
  qed
qed

definition ins :: "('a \<Rightarrow> 'a \<Rightarrow> bool) \<Rightarrow> 'a list \<Rightarrow> 'a \<Rightarrow> 'a list" where
  "ins lt s x = rev (ins_rev lt x (rev s))"

definition isort :: "('a \<Rightarrow> 'a \<Rightarrow> bool) \<Rightarrow> 'a list \<Rightarrow> 'a list" where
  "isort lt xs = foldl (ins lt) [] xs"

lemma length_ins_rev [simp]: "length (ins_rev lt x r) = Suc (length r)"
  by (induction r) simp_all

lemma length_isort [simp]: "length (isort lt xs) = length xs"
  by (induction xs rule: rev_induct) (simp_all add: isort_def ins_def)

lemma isort_snoc: "isort lt (xs @ [x]) = ins lt (isort lt xs) x"
  by (simp add: isort_def)

lemma insertionSort_upto:
  "1 \<le> k \<Longrightarrow> k \<le> length xs \<Longrightarrow>
   foldl (\<lambda>d i. insertion_inner lt d 0 i) xs [1..<k] = isort lt (take k xs) @ drop k xs"
proof (induction k)
  case 0
  then show ?case by simp
next
  case (Suc k)
  show ?case
  proof (cases "k = 0")
    case True
    with Suc.prems obtain x rest where "xs = x # rest" by (cases xs) auto
    with True show ?thesis by (simp add: isort_def ins_def)
  next
    case False
    with Suc have ih: "foldl (\<lambda>d i. insertion_inner lt d 0 i) xs [1..<k] =
                       isort lt (take k xs) @ drop k xs"
      by simp
    have k: "k < length xs" using Suc.prems by simp
    have "foldl (\<lambda>d i. insertion_inner lt d 0 i) xs [1..<Suc k] =
          insertion_inner lt (isort lt (take k xs) @ drop k xs) 0 k"
      using False ih by simp
    also have "isort lt (take k xs) @ drop k xs =
               rev (rev (isort lt (take k xs))) @ xs ! k # drop (Suc k) xs"
      using k by (simp add: Cons_nth_drop_Suc)
    also have "insertion_inner lt \<dots> 0 k =
               insertion_inner lt \<dots> 0 (length (rev (isort lt (take k xs))))"
      using k by simp
    also have "\<dots> = rev (ins_rev lt (xs ! k) (rev (isort lt (take k xs)))) @ drop (Suc k) xs"
      by (rule insertion_inner_ins)
    also have "\<dots> = isort lt (take (Suc k) xs) @ drop (Suc k) xs"
      using k by (simp add: take_Suc_conv_app_nth isort_snoc ins_def)
    finally show ?thesis .
  qed
qed

lemma insertionSort_isort: "insertionSort_func lt xs 0 (length xs) = isort lt xs"
proof (cases xs)
  case Nil
  then show ?thesis by (simp add: insertionSort_func_def isort_def)
next
  case (Cons x rest)
  then have "1 \<le> length xs" by simp
  then show ?thesis
    using insertionSort_upto [of "length xs" xs lt] by (simp add: insertionSort_func_def)
qed

lemma set_ins_rev [simp]: "set (ins_rev lt x r) = insert x (set r)"
  by (induction r) auto

lemma mset_ins_rev [simp]: "mset (ins_rev lt x r) = add_mset x (mset r)"
  by (induction r) auto

lemma sorted_ins_rev:
  assumes "\<And>a b. lt a b = (f a < f b)"
  shows "sorted (rev (map f r)) \<Longrightarrow> sorted (rev (map f (ins_rev lt x r)))"
proof (induction r)
  case Nil
  then show ?case by simp
next
  case (Cons y r)
  then show ?case
    using assms by (auto simp: sorted_append)
qed

lemma filter_ins_rev:
  fixes f :: "'a \<Rightarrow> int"
  assumes "\<And>a b. lt a b = (f a < f b)"
  shows "filter (\<lambda>z. f z = k) (ins_rev lt x r) = filter (\<lambda>z. f z = k) (x # r)"
proof (induction r)
  case Nil
  then show ?case by simp
next
  case (Cons y r)
  then show ?case using assms by auto
qed

lemma isort_properties:
  fixes f :: "'a \<Rightarrow> int"
  assumes "\<And>a b. lt a b = (f a < f b)"
  shows "mset (isort lt xs) = mset xs \<and> sorted (map f (isort lt xs)) \<and>
         (\<forall>k. filter (\<lambda>z. f z = k) (isort lt xs) = filter (\<lambda>z. f z = k) xs)"
proof (induction xs rule: rev_induct)
  case Nil
  then show ?case by (simp add: isort_def)
next
  case (snoc x xs)
  have m: "mset (isort lt (xs @ [x])) = mset (xs @ [x])"
    using snoc by (simp add: isort_snoc ins_def)
  have "sorted (rev (map f (rev (isort lt xs))))"
    using snoc by (simp add: rev_map)
  then have "sorted (rev (map f (ins_rev lt x (rev (isort lt xs)))))"
    by (rule sorted_ins_rev [of lt f, OF assms])
  then have s: "sorted (map f (isort lt (xs @ [x])))"
    by (simp add: isort_snoc ins_def rev_map)
  have "filter (\<lambda>z. f z = k) (isort lt (xs @ [x])) = filter (\<lambda>z. f z = k) (xs @ [x])" for k
  proof -
    have "filter (\<lambda>z. f z = k) (isort lt (xs @ [x])) =
          rev (filter (\<lambda>z. f z = k) (ins_rev lt x (rev (isort lt xs))))"
      by (simp add: isort_snoc ins_def rev_filter)
    also have "\<dots> = rev (filter (\<lambda>z. f z = k) (x # rev (isort lt xs)))"
      using filter_ins_rev [of lt f, OF assms] by simp
    also have "\<dots> = filter (\<lambda>z. f z = k) (isort lt xs) @ filter (\<lambda>z. f z = k) [x]"
      by (simp add: rev_filter)
    finally show ?thesis using snoc by simp
  qed
  with m s show ?case by blast
qed

lemma isort_sort_key:
  fixes f :: "'a \<Rightarrow> int"
  assumes "\<And>a b. lt a b = (f a < f b)"
  shows "isort lt xs = sort_key f xs"
proof -
  note p = isort_properties [of lt f xs, OF assms]
  have "sort_key f xs = isort lt xs"
  proof (rule properties_for_sort_key)
    show "mset (isort lt xs) = mset xs" using p by simp
    show "sorted (map f (isort lt xs))" using p by simp
    show "filter (\<lambda>x. f k = f x) (isort lt xs) = filter (\<lambda>x. f k = f x) xs" for k
    proof -
      have "(\<lambda>x. f k = f x) = (\<lambda>x. f x = f k)" by auto
      then show ?thesis using p by simp
    qed
  qed
  then show ?thesis by simp
qed

lemma sort_Slice_short:
  "length ps \<le> 12 \<Longrightarrow> sort_Slice pdq ps = sort_key (\<lambda>p. sint (ArrivalTime p)) ps"
  using isort_sort_key [of by_arrival "\<lambda>p. sint (ArrivalTime p)" ps]
  by (simp add: sort_Slice_def insertionSort_isort by_arrival_def word_sless_alt)

section \<open>The figures of a schedule row\<close>

text \<open>
  What a row says about the process \<open>p\<close> it was written for. A row of the three
  non-preemptive schedulers carries the burst of \<open>p\<close>, a wait and a completion time with
  \<open>completion = ArrivalTime + wait + BurstDuration\<close>. A row of \<open>RRSchedule\<close> carries the
  time slice of one dispatch, its start, its wait and its completion time, with
  \<open>completion = start + timeSlice\<close>, which is \<open>ArrivalTime + wait + timeSlice\<close> when the
  arrival time is not negative.
\<close>

definition nonpreemptive_row :: "Process \<Rightarrow> string list \<Rightarrow> bool" where
  "nonpreemptive_row p row =
     (\<exists>wait completion.
        row = [Sprint (ProcessID p), Sprint (Priority p), Sprint (BurstDuration p),
               Sprint (ArrivalTime p), Sprint wait, Sprint (BurstDuration p + wait),
               Sprint completion] \<and>
        completion = ArrivalTime p + wait + BurstDuration p)"

definition dispatch_row :: "Process \<Rightarrow> string list \<Rightarrow> bool" where
  "dispatch_row p row =
     (\<exists>timeSlice start wait completion.
        row = [Sprint (ProcessID p), Sprint (Priority p), Sprint timeSlice, Sprint start,
               Sprint wait, Sprint (timeSlice + wait), Sprint completion] \<and>
        completion = start + timeSlice \<and>
        (0 \<le>s ArrivalTime p \<longrightarrow> completion = ArrivalTime p + wait + timeSlice))"

lemma nonpreemptive_rowI:
  "nonpreemptive_row p
     [Sprint (ProcessID p), Sprint (Priority p), Sprint (BurstDuration p),
      Sprint (ArrivalTime p), Sprint w, Sprint (BurstDuration p + w),
      Sprint (BurstDuration p + ArrivalTime p + w)]"
proof -
  have "BurstDuration p + ArrivalTime p + w = ArrivalTime p + w + BurstDuration p"
    by simp
  then show ?thesis
    unfolding nonpreemptive_row_def by blast
qed

lemma FCFS_row:
  assumes "i < length ps"
  shows "schedule (FCFS_upto ps (length ps)) ! i =
        [Sprint (ProcessID (ps ! i)), Sprint (Priority (ps ! i)),
         Sprint (BurstDuration (ps ! i)), Sprint (ArrivalTime (ps ! i)),
         Sprint (waitingTime (FCFS_upto ps (Suc i))),
         Sprint (BurstDuration (ps ! i) + waitingTime (FCFS_upto ps (Suc i))),
         Sprint (BurstDuration (ps ! i) + ArrivalTime (ps ! i) +
                 waitingTime (FCFS_upto ps (Suc i)))]"
proof -
  have len: "i < length (schedule (FCFS_upto ps i))"
    using assms by (simp add: FCFS_length_schedule)
  have "schedule (FCFS_upto ps (length ps)) ! i = schedule (FCFS_upto ps (Suc i)) ! i"
    using assms by (rule FCFS_schedule_kept)
  then show ?thesis
    using len by (simp add: FCFS_upto_Suc FCFS_body_def Let_def)
qed

lemma FCFS_rows_identity:
  assumes "FCFSSchedule ps = Inr out" "i < length ps"
  shows "nonpreemptive_row (ps ! i) (out_schedule out ! i)"
proof -
  have "out_schedule out = schedule (FCFS_upto ps (length ps))"
    using assms(1) by (auto simp: FCFSSchedule_def finish_def Let_def)
  then show ?thesis
    using FCFS_row [OF assms(2)] nonpreemptive_rowI [of "ps ! i" "waitingTime (FCFS_upto ps (Suc i))"]
    by simp
qed

subsection \<open>Rows of the shortest-job schedulers\<close>

definition sjf_inv :: "Process list \<Rightarrow> vars \<Rightarrow> bool" where
  "sjf_inv ps v =
     ((\<forall>row \<in> set (schedule v). row = [] \<or> (\<exists>p \<in> set ps. nonpreemptive_row p row)) \<and>
      (\<forall>x \<in> set (readyQueue v). pp_Process x \<in> set ps))"

lemma set_heap_Push: "set (heap_Push h x) = insert x (set h)"
  using mset_heap_Push [of h x] by (metis set_mset_add_mset_insert set_mset_mset)

lemma set_heap_Pop: "heap_Pop h = Inr (x, h') \<Longrightarrow> set h = insert x (set h')"
  using mset_heap_Pop [of h x h'] by (metis set_mset_add_mset_insert set_mset_mset)

lemma SJF_admit_inv: "sjf_inv ps v \<Longrightarrow> sjf_inv ps (SJF_admit key ps v)"
proof (induction key ps v rule: SJF_admit.induct)
  case (1 key ps v)
  show ?case
  proof (cases "processCounter v < length ps \<and> ArrivalTime (ps ! processCounter v) \<le>s serviceTime v")
    case True
    let ?v = "v \<lparr> readyQueue := heap_Push (readyQueue v)
                      \<lparr> pp_Process = ps ! processCounter v,
                        pp_Priority = key (ps ! processCounter v) \<rparr>,
                  processCounter := processCounter v + 1 \<rparr>"
    have "sjf_inv ps ?v"
      using True "1.prems" by (auto simp: sjf_inv_def set_heap_Push)
    then have "sjf_inv ps (SJF_admit key ps ?v)"
      using True "1.IH" by simp
    then show ?thesis using True by (simp add: SJF_admit_step)
  next
    case False
    then show ?thesis using "1.prems" by (simp add: SJF_admit_stop)
  qed
qed

lemma SJF_dispatch_row:
  assumes "SJF_dispatch v p = Inr v2"
  shows "\<exists>i row. schedule v2 = (schedule v) [i := row] \<and> nonpreemptive_row p row \<and>
                  readyQueue v2 = readyQueue v"
proof -
  from assms have "schedule v2 = (schedule v)
      [nat (int (processCounter v) - 1) :=
         [Sprint (ProcessID p), Sprint (Priority p), Sprint (BurstDuration p),
          Sprint (ArrivalTime p), Sprint (serviceTime v - ArrivalTime p),
          Sprint (BurstDuration p + (serviceTime v - ArrivalTime p)),
          Sprint (BurstDuration p + ArrivalTime p + (serviceTime v - ArrivalTime p))]]"
    and "readyQueue v2 = readyQueue v"
    by (auto simp: SJF_dispatch_def Let_def split: if_splits)
  moreover have "nonpreemptive_row p
         [Sprint (ProcessID p), Sprint (Priority p), Sprint (BurstDuration p),
          Sprint (ArrivalTime p), Sprint (serviceTime v - ArrivalTime p),
          Sprint (BurstDuration p + (serviceTime v - ArrivalTime p)),
          Sprint (BurstDuration p + ArrivalTime p + (serviceTime v - ArrivalTime p))]"
    by (rule nonpreemptive_rowI)
  ultimately show ?thesis by blast
qed

lemma SJF_loop_inv: "SJF_loop key ps v = Inr v' \<Longrightarrow> sjf_inv ps v \<Longrightarrow> sjf_inv ps v'"
proof (induction key ps v rule: SJF_loop.induct)
  case (1 key ps v)
  show ?case
  proof (cases "processCounter v < length ps")
    case False
    then show ?thesis using "1.prems" by (simp add: SJF_loop_done)
  next
    case True
    define v1 where "v1 = SJF_admit key ps v"
    have inv1: "sjf_inv ps v1" using "1.prems"(2) by (simp add: v1_def SJF_admit_inv)
    from "1.prems"(1) True obtain current rq v2 where
      pop: "heap_Pop (readyQueue v1) = Inr (current, rq)"
      and d: "SJF_dispatch (v1 \<lparr> readyQueue := rq \<rparr>) (pp_Process current) = Inr v2"
      and l: "SJF_loop key ps v2 = Inr v'"
      by (auto simp: SJF_loop_step v1_def split: sum.splits prod.splits)
    have cur: "pp_Process current \<in> set ps" and rq: "\<forall>x \<in> set rq. pp_Process x \<in> set ps"
      using inv1 set_heap_Pop [OF pop] by (auto simp: sjf_inv_def)
    from SJF_dispatch_row [OF d] obtain i row where
      sch: "schedule v2 = (schedule v1) [i := row]"
      and row: "nonpreemptive_row (pp_Process current) row"
      and q2: "readyQueue v2 = rq"
      by auto
    have "sjf_inv ps v2"
      unfolding sjf_inv_def
    proof (intro conjI ballI)
      fix r assume "r \<in> set (schedule v2)"
      then have "r \<in> insert row (set (schedule v1))"
        using sch set_update_subset_insert [of "schedule v1" i row] by auto
      then show "r = [] \<or> (\<exists>p \<in> set ps. nonpreemptive_row p r)"
        using row cur inv1 by (auto simp: sjf_inv_def)
    next
      fix x assume "x \<in> set (readyQueue v2)"
      then show "pp_Process x \<in> set ps" using q2 rq by simp
    qed
    then show ?thesis
      using "1.IH" [OF True v1_def pop refl d l] by simp
  qed
qed

subsection \<open>Rows of RRSchedule\<close>

definition same_identity :: "Process \<Rightarrow> Process \<Rightarrow> bool" where
  "same_identity p q =
     (ProcessID q = ProcessID p \<and> Priority q = Priority p \<and> ArrivalTime q = ArrivalTime p)"

definition rr_inv :: "Process list \<Rightarrow> vars \<Rightarrow> bool" where
  "rr_inv ps v =
     ((\<forall>row \<in> set (schedule v). row = [] \<or> (\<exists>p \<in> set ps. dispatch_row p row)) \<and>
      (\<forall>q \<in> set (queue v). \<exists>p \<in> set ps. same_identity p q))"

lemma dispatch_row_identity: "same_identity p q \<Longrightarrow> dispatch_row q row \<Longrightarrow> dispatch_row p row"
  by (simp add: same_identity_def dispatch_row_def)

lemma wait_is_start_minus_arrival:
  assumes "0 \<le>s (a::int64)"
  shows "a + max_int64 0 (max_int64 s a - a) = max_int64 s a"
proof -
  have a0: "0 \<le> sint a" using assms by (simp add: word_sle_eq)
  have le: "sint a \<le> sint (max_int64 s a)"
    by (simp add: max_int64_def word_sless_alt)
  have "sint (max_int64 s a - a) = sint (max_int64 s a) - sint a"
    using a0 le sint_bounds64 [of "max_int64 s a"] sint_bounds64 [of a]
    by (intro sint_sub_no_wrap) simp_all
  then have "\<not> (max_int64 s a - a <s 0)"
    using le by (simp add: word_sless_alt)
  then have "max_int64 0 (max_int64 s a - a) = max_int64 s a - a"
    by (simp add: max_int64_def [of 0])
  then show ?thesis by simp
qed

lemma RR_dispatch_row:
  assumes "RR_dispatch v q = Inr v2"
  shows "\<exists>i row. schedule v2 = (schedule v) [i := row] \<and> dispatch_row q row"
proof -
  define timeSlice where "timeSlice = min_int64 quantum (BurstDuration q)"
  define start where "start = max_int64 (serviceTime v) (ArrivalTime q)"
  define wait where "wait = max_int64 0 (start - ArrivalTime q)"
  define row where "row = [Sprint (ProcessID q), Sprint (Priority q), Sprint timeSlice,
      Sprint start, Sprint wait, Sprint (timeSlice + wait), Sprint (start + timeSlice)]"
  from assms have "schedule v2 = (schedule v) [nat (sint (ProcessID q - 1)) := row]"
    by (auto simp: RR_dispatch_def Let_def row_def timeSlice_def start_def wait_def
             split: if_splits)
  moreover have "dispatch_row q row"
  proof -
    have "0 \<le>s ArrivalTime q \<longrightarrow> start + timeSlice = ArrivalTime q + wait + timeSlice"
      using wait_is_start_minus_arrival [of "ArrivalTime q" "serviceTime v"]
      by (simp add: wait_def start_def)
    then show ?thesis
      unfolding dispatch_row_def row_def by blast
  qed
  ultimately show ?thesis by blast
qed

lemma RR_admit_inv: "rr_inv ps v \<Longrightarrow> rr_inv ps (RR_admit ps v)"
proof (induction ps v rule: RR_admit.induct)
  case (1 ps v)
  show ?case
  proof (cases "processCounter v < length ps \<and> ArrivalTime (ps ! processCounter v) \<le>s serviceTime v")
    case True
    let ?v = "v \<lparr> queue := queue v @ [ps ! processCounter v],
                  processCounter := processCounter v + 1 \<rparr>"
    have "same_identity (ps ! processCounter v) (ps ! processCounter v)"
      by (simp add: same_identity_def)
    then have "rr_inv ps ?v"
      using True "1.prems" by (auto simp: rr_inv_def)
    then have "rr_inv ps (RR_admit ps ?v)"
      using True "1.IH" by simp
    then show ?thesis using True by (simp add: RR_admit_step)
  next
    case False
    then show ?thesis using "1.prems" by (simp add: RR_admit_stop)
  qed
qed

lemma RR_loop_inv: "RR_loop ps v = Inr v' \<Longrightarrow> rr_inv ps v \<Longrightarrow> rr_inv ps v'"
proof (induction ps v rule: RR_loop.induct)
  case (1 ps v)
  show ?case
  proof (cases "0 < length (queue v) \<or> processCounter v < length ps")
    case False
    then show ?thesis using "1.prems" by (simp add: RR_loop_done)
  next
    case c: True
    define v1 where "v1 = RR_admit ps v"
    have inv1: "rr_inv ps v1" using "1.prems"(2) by (simp add: v1_def RR_admit_inv)
    show ?thesis
    proof (cases "queue v1")
      case Nil
      then have eq: "RR_loop ps v = RR_loop ps (v1 \<lparr> serviceTime := serviceTime v1 + 1 \<rparr>)"
        using c admit_empty [of ps v] by (simp add: RR_loop_idle v1_def)
      have "rr_inv ps (v1 \<lparr> serviceTime := serviceTime v1 + 1 \<rparr>)"
        using inv1 by (simp add: rr_inv_def)
      then show ?thesis
        using "1.IH"(1) [OF c v1_def Nil] "1.prems"(1) eq by simp
    next
      case (Cons q rest)
      from "1.prems"(1) c Cons obtain v2 where
        d: "RR_dispatch (v1 \<lparr> queue := rest \<rparr>) q = Inr v2"
        and l: "RR_loop ps v2 = Inr v'"
        by (auto simp: RR_loop_dispatch v1_def split: sum.splits)
      from inv1 Cons obtain p where p: "p \<in> set ps" "same_identity p q"
        by (auto simp: rr_inv_def)
      from RR_dispatch_row [OF d] obtain i row where
        sch: "schedule v2 = (schedule v1) [i := row]" and row: "dispatch_row q row"
        by auto
      have q2: "queue v2 = rest \<or> (\<exists>b. queue v2 = rest @ [q \<lparr> BurstDuration := b \<rparr>])"
        using RR_dispatch_Inr [OF d] by simp
      have "rr_inv ps v2"
        unfolding rr_inv_def
      proof (intro conjI ballI)
        fix r assume "r \<in> set (schedule v2)"
        then have "r \<in> insert row (set (schedule v1))"
          using sch set_update_subset_insert [of "schedule v1" i row] by auto
        then show "r = [] \<or> (\<exists>p \<in> set ps. dispatch_row p r)"
          using row p dispatch_row_identity [OF p(2)] inv1 by (auto simp: rr_inv_def)
      next
        fix x assume "x \<in> set (queue v2)"
        then have "x \<in> set rest \<or> (\<exists>b. x = q \<lparr> BurstDuration := b \<rparr>)"
          using q2 by auto
        then show "\<exists>p \<in> set ps. same_identity p x"
          using inv1 Cons p by (auto simp: rr_inv_def same_identity_def)
      qed
      then show ?thesis
        using "1.IH"(2) [OF c v1_def Cons d l] by simp
    qed
  qed
qed

lemma SJF_run_rows:
  assumes "SJF_run key pdq ps = Inr out"
  shows "processes_after out = sort_Slice pdq ps \<and>
         (\<forall>row \<in> set (out_schedule out).
            row = [] \<or> (\<exists>p \<in> set (processes_after out). nonpreemptive_row p row))"
proof -
  define sorted where "sorted = sort_Slice pdq ps"
  from assms obtain v where l: "SJF_loop key sorted (init_vars (length sorted)) = Inr v"
    and out: "out = finish sorted v"
    by (auto simp: SJF_run_def Let_def sorted_def split: sum.splits)
  have "sjf_inv sorted (init_vars (length sorted))"
    by (simp add: sjf_inv_def init_vars_def)
  then have "sjf_inv sorted v" using l by (rule SJF_loop_inv [rotated])
  then show ?thesis
    using out by (simp add: sjf_inv_def finish_def Let_def sorted_def)
qed

lemma RR_rows:
  assumes "RRSchedule ps = Inr out"
  shows "processes_after out = ps \<and>
         (\<forall>row \<in> set (out_schedule out). row = [] \<or> (\<exists>p \<in> set ps. dispatch_row p row))"
proof -
  from assms obtain v where l: "RR_loop ps (init_vars (length ps)) = Inr v"
    and out: "out = finish ps v"
    by (auto simp: RRSchedule_def split: sum.splits)
  have "rr_inv ps (init_vars (length ps))"
    by (simp add: rr_inv_def init_vars_def)
  then have "rr_inv ps v" using l by (rule RR_loop_inv [rotated])
  then show ?thesis
    using out by (simp add: rr_inv_def finish_def Let_def)
qed

lemma example_FCFS:
  "FCFSSchedule
     [\<lparr>ProcessID = 1, ArrivalTime = 0, BurstDuration = 3, Priority = 0\<rparr>,
      \<lparr>ProcessID = 2, ArrivalTime = 1, BurstDuration = 2, Priority = 0\<rparr>] =
   Inr \<lparr>out_gantt = [\<lparr>PID = 1, Start = 0, Stop = 3\<rparr>, \<lparr>PID = 2, Start = 3, Stop = 5\<rparr>],
        out_schedule =
          [[''1'', ''0'', ''3'', ''0'', ''0'', ''3'', ''3''],
           [''2'', ''0'', ''2'', ''1'', ''2'', ''4'', ''5'']],
        aveWait = Finite 1, aveTurnaround = Finite (7 / 2), aveThroughput = Finite (2 / 5),
        processes_after =
          [\<lparr>ProcessID = 1, ArrivalTime = 0, BurstDuration = 3, Priority = 0\<rparr>,
           \<lparr>ProcessID = 2, ArrivalTime = 1, BurstDuration = 2, Priority = 0\<rparr>]\<rparr>"
  by code_simp

lemma example_SJF:
  "SJF_run key pdq
     [\<lparr>ProcessID = 1, ArrivalTime = 0, BurstDuration = 3, Priority = 0\<rparr>,
      \<lparr>ProcessID = 2, ArrivalTime = 1, BurstDuration = 2, Priority = 0\<rparr>] =
   Inr \<lparr>out_gantt = [\<lparr>PID = 1, Start = 0, Stop = 3\<rparr>, \<lparr>PID = 2, Start = 3, Stop = 5\<rparr>],
        out_schedule =
          [[''1'', ''0'', ''3'', ''0'', ''0'', ''3'', ''3''],
           [''2'', ''0'', ''2'', ''1'', ''2'', ''4'', ''5'']],
        aveWait = Finite 1, aveTurnaround = Finite (7 / 2), aveThroughput = Finite (2 / 5),
        processes_after =
          [\<lparr>ProcessID = 1, ArrivalTime = 0, BurstDuration = 3, Priority = 0\<rparr>,
           \<lparr>ProcessID = 2, ArrivalTime = 1, BurstDuration = 2, Priority = 0\<rparr>]\<rparr>"
  by code_simp

lemma example_SJF_unsorted:
  "SJF_run key pdq
     [\<lparr>ProcessID = 1, ArrivalTime = 1, BurstDuration = 1, Priority = 0\<rparr>,
      \<lparr>ProcessID = 2, ArrivalTime = 0, BurstDuration = 1, Priority = 0\<rparr>] =
   Inr \<lparr>out_gantt = [\<lparr>PID = 2, Start = 0, Stop = 1\<rparr>, \<lparr>PID = 1, Start = 1, Stop = 2\<rparr>],
        out_schedule =
          [[''2'', ''0'', ''1'', ''0'', ''0'', ''1'', ''1''],
           [''1'', ''0'', ''1'', ''1'', ''0'', ''1'', ''2'']],
        aveWait = Finite 0, aveTurnaround = Finite 1, aveThroughput = Finite 1,
        processes_after =
          [\<lparr>ProcessID = 2, ArrivalTime = 0, BurstDuration = 1, Priority = 0\<rparr>,
           \<lparr>ProcessID = 1, ArrivalTime = 1, BurstDuration = 1, Priority = 0\<rparr>]\<rparr>"
  by code_simp

lemma example_RR:
  "RRSchedule
     [\<lparr>ProcessID = 1, ArrivalTime = 0, BurstDuration = 3, Priority = 0\<rparr>,
      \<lparr>ProcessID = 2, ArrivalTime = 1, BurstDuration = 2, Priority = 0\<rparr>] =
   Inr \<lparr>out_gantt =
          [\<lparr>PID = 1, Start = 0, Stop = 1\<rparr>, \<lparr>PID = 1, Start = 1, Stop = 2\<rparr>,
           \<lparr>PID = 2, Start = 2, Stop = 3\<rparr>, \<lparr>PID = 1, Start = 3, Stop = 4\<rparr>,
           \<lparr>PID = 2, Start = 4, Stop = 5\<rparr>],
        out_schedule =
          [[''1'', ''0'', ''1'', ''3'', ''3'', ''4'', ''4''],
           [''2'', ''0'', ''1'', ''4'', ''3'', ''4'', ''5'']],
        aveWait = Finite 4, aveTurnaround = Finite (13 / 2), aveThroughput = Finite (2 / 5),
        processes_after =
          [\<lparr>ProcessID = 1, ArrivalTime = 0, BurstDuration = 3, Priority = 0\<rparr>,
           \<lparr>ProcessID = 2, ArrivalTime = 1, BurstDuration = 2, Priority = 0\<rparr>]\<rparr>"
  by code_simp

text \<open>
  C8. In \<open>FCFSSchedule\<close>, \<open>SJFSchedule\<close> and \<open>SJFPrioritySchedule\<close> every row that was
  written satisfies \<open>completion = ArrivalTime + wait + BurstDuration\<close> for its process. In
  \<open>RRSchedule\<close> a row holds the figures of one dispatch: \<open>completion = start + timeSlice\<close>,
  and \<open>completion = ArrivalTime + wait + timeSlice\<close> for a non-negative arrival time; the
  time slice is that of the dispatch, not the original burst.
\<close>

theorem completion_identity_per_dispatch:
  "(\<forall>out. FCFSSchedule ps = Inr out \<longrightarrow>
      (\<forall>i < length ps. nonpreemptive_row (ps ! i) (out_schedule out ! i))) \<and>
   (\<forall>out. SJFSchedule pdq ps = Inr out \<longrightarrow>
      (\<forall>row \<in> set (out_schedule out).
         row = [] \<or> (\<exists>p \<in> set (processes_after out). nonpreemptive_row p row))) \<and>
   (\<forall>out. SJFPrioritySchedule impl pdq ps = Inr out \<longrightarrow>
      (\<forall>row \<in> set (out_schedule out).
         row = [] \<or> (\<exists>p \<in> set (processes_after out). nonpreemptive_row p row))) \<and>
   (\<forall>out. RRSchedule ps = Inr out \<longrightarrow>
      (\<forall>row \<in> set (out_schedule out). row = [] \<or> (\<exists>p \<in> set ps. dispatch_row p row)))"
proof -
  have f: "\<forall>i < length ps. nonpreemptive_row (ps ! i) (out_schedule out ! i)"
    if "FCFSSchedule ps = Inr out" for out
    using that FCFS_rows_identity [of ps out] by blast
  have s: "\<forall>row \<in> set (out_schedule out).
         row = [] \<or> (\<exists>p \<in> set (processes_after out). nonpreemptive_row p row)"
    if "SJFSchedule pdq ps = Inr out" for out
    using that SJF_run_rows [of SJF_key pdq ps out] unfolding SJFSchedule_def by blast
  have p: "\<forall>row \<in> set (out_schedule out).
         row = [] \<or> (\<exists>p \<in> set (processes_after out). nonpreemptive_row p row)"
    if "SJFPrioritySchedule impl pdq ps = Inr out" for out
    using that SJF_run_rows [of "SJFPriority_key impl" pdq ps out]
    unfolding SJFPrioritySchedule_def by blast
  have r: "\<forall>row \<in> set (out_schedule out). row = [] \<or> (\<exists>p \<in> set ps. dispatch_row p row)"
    if "RRSchedule ps = Inr out" for out
    using that RR_rows [of ps out] by blast
  show ?thesis
    using f s p r by blast
qed

theorem completion_identity_witness:
  "(\<exists>out. FCFSSchedule
       [\<lparr>ProcessID = 1, ArrivalTime = 0, BurstDuration = 3, Priority = 0\<rparr>,
        \<lparr>ProcessID = 2, ArrivalTime = 1, BurstDuration = 2, Priority = 0\<rparr>] = Inr out \<and>
      nonpreemptive_row \<lparr>ProcessID = 2, ArrivalTime = 1, BurstDuration = 2, Priority = 0\<rparr>
        [''2'', ''0'', ''2'', ''1'', ''2'', ''4'', ''5'']) \<and>
   (\<forall>pdq. \<exists>out. SJFSchedule pdq
       [\<lparr>ProcessID = 1, ArrivalTime = 0, BurstDuration = 3, Priority = 0\<rparr>,
        \<lparr>ProcessID = 2, ArrivalTime = 1, BurstDuration = 2, Priority = 0\<rparr>] = Inr out \<and>
      (\<exists>p \<in> set (processes_after out).
         nonpreemptive_row p [''2'', ''0'', ''2'', ''1'', ''2'', ''4'', ''5''])) \<and>
   (\<forall>impl pdq. \<exists>out. SJFPrioritySchedule impl pdq
       [\<lparr>ProcessID = 1, ArrivalTime = 0, BurstDuration = 3, Priority = 0\<rparr>,
        \<lparr>ProcessID = 2, ArrivalTime = 1, BurstDuration = 2, Priority = 0\<rparr>] = Inr out \<and>
      (\<exists>p \<in> set (processes_after out).
         nonpreemptive_row p [''2'', ''0'', ''2'', ''1'', ''2'', ''4'', ''5''])) \<and>
   (\<exists>out. RRSchedule
       [\<lparr>ProcessID = 1, ArrivalTime = 0, BurstDuration = 3, Priority = 0\<rparr>,
        \<lparr>ProcessID = 2, ArrivalTime = 1, BurstDuration = 2, Priority = 0\<rparr>] = Inr out \<and>
      (\<exists>p \<in> set [\<lparr>ProcessID = 1, ArrivalTime = 0, BurstDuration = 3, Priority = 0\<rparr>,
                  \<lparr>ProcessID = 2, ArrivalTime = 1, BurstDuration = 2, Priority = 0\<rparr>].
         dispatch_row p [''1'', ''0'', ''1'', ''3'', ''3'', ''4'', ''4'']))"
proof -
  let ?ps = "[\<lparr>ProcessID = 1, ArrivalTime = 0, BurstDuration = 3, Priority = 0\<rparr>,
              \<lparr>ProcessID = 2, ArrivalTime = 1, BurstDuration = 2, Priority = 0\<rparr>]"
  note t = completion_identity_per_dispatch [of ?ps]
  have f: "nonpreemptive_row \<lparr>ProcessID = 2, ArrivalTime = 1, BurstDuration = 2, Priority = 0\<rparr>
        [''2'', ''0'', ''2'', ''1'', ''2'', ''4'', ''5'']"
    using t [THEN conjunct1] example_FCFS by fastforce
  have s: "\<exists>p \<in> set (processes_after out).
         nonpreemptive_row p [''2'', ''0'', ''2'', ''1'', ''2'', ''4'', ''5'']"
    if "SJFSchedule pdq ?ps = Inr out" for pdq out
  proof -
    have "[''2'', ''0'', ''2'', ''1'', ''2'', ''4'', ''5''] \<in> set (out_schedule out)"
      using that example_SJF [of SJF_key pdq] by (auto simp: SJFSchedule_def)
    then show ?thesis
      using t [of pdq, THEN conjunct2, THEN conjunct1] that by fastforce
  qed
  have p: "\<exists>p \<in> set (processes_after out).
         nonpreemptive_row p [''2'', ''0'', ''2'', ''1'', ''2'', ''4'', ''5'']"
    if "SJFPrioritySchedule impl pdq ?ps = Inr out" for impl pdq out
  proof -
    have "[''2'', ''0'', ''2'', ''1'', ''2'', ''4'', ''5''] \<in> set (out_schedule out)"
      using that example_SJF [of "SJFPriority_key impl" pdq]
      by (auto simp: SJFPrioritySchedule_def)
    then show ?thesis
      using t [of pdq impl, THEN conjunct2, THEN conjunct2, THEN conjunct1] that by fastforce
  qed
  have r: "\<exists>p \<in> set ?ps. dispatch_row p [''1'', ''0'', ''1'', ''3'', ''3'', ''4'', ''4'']"
    using t [THEN conjunct2, THEN conjunct2, THEN conjunct2] example_RR by fastforce
  show ?thesis
    using f s p r example_FCFS example_RR example_SJF [of SJF_key]
      example_SJF [of "SJFPriority_key _"]
    by (simp add: SJFSchedule_def SJFPrioritySchedule_def)
qed

theorem RR_completion_counterexample:
  "\<exists>out. RRSchedule
       [\<lparr>ProcessID = 1, ArrivalTime = 0, BurstDuration = 3, Priority = 0\<rparr>,
        \<lparr>ProcessID = 2, ArrivalTime = 1, BurstDuration = 2, Priority = 0\<rparr>] = Inr out \<and>
     out_gantt out ! 3 = \<lparr>PID = 1, Start = 3, Stop = 4\<rparr> \<and>
     out_schedule out ! 0 =
       [Sprint 1, Sprint 0, Sprint 1, Sprint 3, Sprint 3, Sprint 4, Sprint 4] \<and>
     (4::int64) \<noteq> 0 + 3 + 3 \<and> (4::int64) \<noteq> 0 + (0 + 1 + 3) + 3"
proof -
  have sp: "Sprint 0 = ''0''" "Sprint 1 = ''1''" "Sprint 3 = ''3''" "Sprint 4 = ''4''"
    by (simp_all add: Sprint_def digits10.simps)
  show ?thesis
    by (simp add: example_RR sp)
qed

section \<open>The key of SJFPrioritySchedule\<close>

lemma key_value:
  assumes "0 < k" "k < 2 ^ 63"
  shows "int_of_float64 impl (fdiv (Finite 1) (Finite (real_of_int k))) = word_of_int (1 div k)"
proof (cases "k = 1")
  case True
  then show ?thesis by (simp add: int_of_float64_def)
next
  case False
  with assms have k: "2 \<le> k" by simp
  then have "0 < 1 / real_of_int k" "1 / real_of_int k < 1" by simp_all
  then have "\<lfloor>1 / real_of_int k\<rfloor> = 0" by linarith
  moreover have "1 div k = 0" using k by (simp add: div_pos_pos_trivial)
  ultimately show ?thesis using k by (simp add: int_of_float64_def)
qed

lemma SJF_admit_keyed:
  "\<forall>y \<in> set (readyQueue v). pp_Priority y = key (pp_Process y) \<Longrightarrow>
   \<forall>x \<in> set (readyQueue (SJF_admit key ps v)). pp_Priority x = key (pp_Process x)"
proof (induction key ps v rule: SJF_admit.induct)
  case (1 key ps v)
  show ?case
  proof (cases "processCounter v < length ps \<and> ArrivalTime (ps ! processCounter v) \<le>s serviceTime v")
    case True
    let ?v = "v \<lparr> readyQueue := heap_Push (readyQueue v)
                      \<lparr> pp_Process = ps ! processCounter v,
                        pp_Priority = key (ps ! processCounter v) \<rparr>,
                  processCounter := processCounter v + 1 \<rparr>"
    have "\<forall>y \<in> set (readyQueue ?v). pp_Priority y = key (pp_Process y)"
      using "1.prems" by (auto simp: set_heap_Push)
    then have "\<forall>x \<in> set (readyQueue (SJF_admit key ps ?v)). pp_Priority x = key (pp_Process x)"
      using True "1.IH" by simp
    then show ?thesis using True by (simp add: SJF_admit_step)
  next
    case False
    then show ?thesis using "1.prems" by (simp add: SJF_admit_stop)
  qed
qed

lemma example_SJFPriority_admit:
  "readyQueue (SJF_admit (SJFPriority_key impl)
       [\<lparr>ProcessID = 1, ArrivalTime = 0, BurstDuration = 1, Priority = 0\<rparr>,
        \<lparr>ProcessID = 2, ArrivalTime = 0, BurstDuration = 2, Priority = 0\<rparr>,
        \<lparr>ProcessID = 3, ArrivalTime = 0, BurstDuration = 3, Priority = 0\<rparr>] (init_vars 3)) =
     [\<lparr>pp_Process = \<lparr>ProcessID = 2, ArrivalTime = 0, BurstDuration = 2, Priority = 0\<rparr>,
       pp_Priority = 0\<rparr>,
      \<lparr>pp_Process = \<lparr>ProcessID = 1, ArrivalTime = 0, BurstDuration = 1, Priority = 0\<rparr>,
       pp_Priority = 1\<rparr>,
      \<lparr>pp_Process = \<lparr>ProcessID = 3, ArrivalTime = 0, BurstDuration = 3, Priority = 0\<rparr>,
       pp_Priority = 0\<rparr>]"
  by code_simp

text \<open>
  C6. For a process with a positive burst the key of \<open>SJFPrioritySchedule\<close> is the
  integer quotient \<open>1 div BurstDuration\<close>: 1 for the burst 1 and 0 for every longer burst.
  The admission loop pushes every process with this key.
\<close>

theorem SJFPriority_key_floor:
  assumes "0 <s BurstDuration p"
  shows "SJFPriority_key impl p = word_of_int (1 div sint (BurstDuration p)) \<and>
         SJFPriority_key impl p = (if BurstDuration p = 1 then 1 else 0) \<and>
         ((\<forall>y \<in> set (readyQueue v). pp_Priority y = SJFPriority_key impl (pp_Process y)) \<longrightarrow>
          (\<forall>x \<in> set (readyQueue (SJF_admit (SJFPriority_key impl) processes v)).
             pp_Priority x = SJFPriority_key impl (pp_Process x)))"
proof -
  have adm: "(\<forall>y \<in> set (readyQueue v). pp_Priority y = SJFPriority_key impl (pp_Process y)) \<longrightarrow>
          (\<forall>x \<in> set (readyQueue (SJF_admit (SJFPriority_key impl) processes v)).
             pp_Priority x = SJFPriority_key impl (pp_Process x))"
    using SJF_admit_keyed [of v "SJFPriority_key impl" processes] by blast
  have pos: "0 < sint (BurstDuration p)" using assms by (simp add: word_sless_alt)
  have lt: "sint (BurstDuration p) < 2 ^ 63" using sint_lt [of "BurstDuration p"] by simp
  have eq: "SJFPriority_key impl p = word_of_int (1 div sint (BurstDuration p))"
    using key_value [OF pos lt] by (simp add: SJFPriority_key_def float64_of_int64_def)
  show ?thesis
  proof (cases "BurstDuration p = 1")
    case True
    then show ?thesis using eq adm by simp
  next
    case False
    have "sint (BurstDuration p) \<noteq> 1"
    proof
      assume "sint (BurstDuration p) = 1"
      then have "word_of_int (sint (BurstDuration p)) = (1::int64)" by simp
      then show False using False by simp
    qed
    with pos have "2 \<le> sint (BurstDuration p)" by simp
    then have "1 div sint (BurstDuration p) = 0" by (simp add: div_pos_pos_trivial)
    then show ?thesis using eq False adm by simp
  qed
qed

theorem SJFPriority_key_floor_witness:
  "(0::int64) <s 1 \<and> (0::int64) <s 2 \<and> (0::int64) <s 3 \<and>
   (\<forall>impl.
      SJFPriority_key impl \<lparr>ProcessID = 1, ArrivalTime = 0, BurstDuration = 1, Priority = 0\<rparr> = 1 \<and>
      SJFPriority_key impl \<lparr>ProcessID = 1, ArrivalTime = 0, BurstDuration = 2, Priority = 0\<rparr> = 0 \<and>
      SJFPriority_key impl \<lparr>ProcessID = 1, ArrivalTime = 0, BurstDuration = 3, Priority = 0\<rparr> = 0 \<and>
      map pp_Priority (readyQueue (SJF_admit (SJFPriority_key impl)
       [\<lparr>ProcessID = 1, ArrivalTime = 0, BurstDuration = 1, Priority = 0\<rparr>,
        \<lparr>ProcessID = 2, ArrivalTime = 0, BurstDuration = 2, Priority = 0\<rparr>,
        \<lparr>ProcessID = 3, ArrivalTime = 0, BurstDuration = 3, Priority = 0\<rparr>] (init_vars 3))) =
        [0, 1, 0] \<and>
      list_all (\<lambda>x. pp_Priority x = SJFPriority_key impl (pp_Process x))
        (readyQueue (SJF_admit (SJFPriority_key impl)
          [\<lparr>ProcessID = 1, ArrivalTime = 0, BurstDuration = 1, Priority = 0\<rparr>,
           \<lparr>ProcessID = 2, ArrivalTime = 0, BurstDuration = 2, Priority = 0\<rparr>,
           \<lparr>ProcessID = 3, ArrivalTime = 0, BurstDuration = 3, Priority = 0\<rparr>] (init_vars 3))))"
proof -
  have h1: "(0::int64) <s 1" and h2: "(0::int64) <s 2" and h3: "(0::int64) <s 3"
    by (simp_all add: word_sless_alt)
  have "SJFPriority_key impl \<lparr>ProcessID = 1, ArrivalTime = 0, BurstDuration = 1, Priority = 0\<rparr> = 1"
    for impl
    using SJFPriority_key_floor
            [of "\<lparr>ProcessID = 1, ArrivalTime = 0, BurstDuration = 1, Priority = 0\<rparr>" impl] h1
    by simp
  moreover
  have "SJFPriority_key impl \<lparr>ProcessID = 1, ArrivalTime = 0, BurstDuration = 2, Priority = 0\<rparr> = 0"
    for impl
    using SJFPriority_key_floor
            [of "\<lparr>ProcessID = 1, ArrivalTime = 0, BurstDuration = 2, Priority = 0\<rparr>" impl] h2
    by simp
  moreover
  have "SJFPriority_key impl \<lparr>ProcessID = 1, ArrivalTime = 0, BurstDuration = 3, Priority = 0\<rparr> = 0"
    for impl
    using SJFPriority_key_floor
            [of "\<lparr>ProcessID = 1, ArrivalTime = 0, BurstDuration = 3, Priority = 0\<rparr>" impl] h3
    by simp
  moreover
  have "list_all (\<lambda>x. pp_Priority x = SJFPriority_key impl (pp_Process x))
        (readyQueue (SJF_admit (SJFPriority_key impl)
          [\<lparr>ProcessID = 1, ArrivalTime = 0, BurstDuration = 1, Priority = 0\<rparr>,
           \<lparr>ProcessID = 2, ArrivalTime = 0, BurstDuration = 2, Priority = 0\<rparr>,
           \<lparr>ProcessID = 3, ArrivalTime = 0, BurstDuration = 3, Priority = 0\<rparr>] (init_vars 3)))"
    for impl
  proof -
    have "\<forall>y \<in> set (readyQueue (init_vars 3)).
            pp_Priority y = SJFPriority_key impl (pp_Process y)"
      by (simp add: init_vars_def)
    then show ?thesis
      using SJFPriority_key_floor
              [where p = "\<lparr>ProcessID = 1, ArrivalTime = 0, BurstDuration = 1, Priority = 0\<rparr>"
                 and v = "init_vars 3" and impl = impl
                 and processes =
                   "[\<lparr>ProcessID = 1, ArrivalTime = 0, BurstDuration = 1, Priority = 0\<rparr>,
                     \<lparr>ProcessID = 2, ArrivalTime = 0, BurstDuration = 2, Priority = 0\<rparr>,
                     \<lparr>ProcessID = 3, ArrivalTime = 0, BurstDuration = 3, Priority = 0\<rparr>]"] h1
      unfolding list_all_iff by simp
  qed
  moreover
  have "map pp_Priority (readyQueue (SJF_admit (SJFPriority_key impl)
       [\<lparr>ProcessID = 1, ArrivalTime = 0, BurstDuration = 1, Priority = 0\<rparr>,
        \<lparr>ProcessID = 2, ArrivalTime = 0, BurstDuration = 2, Priority = 0\<rparr>,
        \<lparr>ProcessID = 3, ArrivalTime = 0, BurstDuration = 3, Priority = 0\<rparr>] (init_vars 3))) =
        [0, 1, 0]" for impl
    by (simp add: example_SJFPriority_admit)
  ultimately show ?thesis using h1 h2 h3 by blast
qed

section \<open>The caller's slice after a call\<close>

lemma SJF_run_after: "SJF_run key pdq ps = Inr out \<Longrightarrow> processes_after out = sort_Slice pdq ps"
  by (auto simp: SJF_run_def finish_def Let_def split: sum.splits)

lemma sort_Slice_sorted_input:
  "length ps \<le> 12 \<Longrightarrow> sorted (map (\<lambda>p. sint (ArrivalTime p)) ps) \<Longrightarrow> sort_Slice pdq ps = ps"
  by (simp add: sort_Slice_short sort_key_id_if_sorted)

lemma example_RR_unsorted:
  "RRSchedule
     [\<lparr>ProcessID = 1, ArrivalTime = 1, BurstDuration = 1, Priority = 0\<rparr>,
      \<lparr>ProcessID = 2, ArrivalTime = 0, BurstDuration = 1, Priority = 0\<rparr>] =
   Inr \<lparr>out_gantt = [\<lparr>PID = 1, Start = 1, Stop = 2\<rparr>, \<lparr>PID = 2, Start = 2, Stop = 3\<rparr>],
        out_schedule =
          [[''1'', ''0'', ''1'', ''1'', ''0'', ''1'', ''2''],
           [''2'', ''0'', ''1'', ''2'', ''2'', ''3'', ''3'']],
        aveWait = Finite 1, aveTurnaround = Finite 2, aveThroughput = Finite (2 / 3),
        processes_after =
          [\<lparr>ProcessID = 1, ArrivalTime = 1, BurstDuration = 1, Priority = 0\<rparr>,
           \<lparr>ProcessID = 2, ArrivalTime = 0, BurstDuration = 1, Priority = 0\<rparr>]\<rparr>"
  by code_simp

text \<open>
  C1. \<open>FCFSSchedule\<close> and \<open>RRSchedule\<close> leave the caller's slice as it was.
  \<open>SJFSchedule\<close> and \<open>SJFPrioritySchedule\<close> sort it in place: when they return, the slice
  holds what \<open>sort.Slice\<close> made of it. For a batch of at most 12 processes that is the same
  descriptors in ascending order of arrival, and the input itself when it was in that
  order already.
\<close>

theorem input_slice_after_call:
  "(\<forall>out. FCFSSchedule ps = Inr out \<longrightarrow> processes_after out = ps) \<and>
   (\<forall>out. RRSchedule ps = Inr out \<longrightarrow> processes_after out = ps) \<and>
   (\<forall>out. SJFSchedule pdq ps = Inr out \<longrightarrow> processes_after out = sort_Slice pdq ps) \<and>
   (\<forall>out. SJFPrioritySchedule impl pdq ps = Inr out \<longrightarrow>
      processes_after out = sort_Slice pdq ps) \<and>
   (length ps \<le> 12 \<longrightarrow>
      mset (sort_Slice pdq ps) = mset ps \<and>
      sorted (map (\<lambda>p. sint (ArrivalTime p)) (sort_Slice pdq ps)) \<and>
      (sorted (map (\<lambda>p. sint (ArrivalTime p)) ps) \<longrightarrow> sort_Slice pdq ps = ps))"
proof -
  have f: "processes_after out = ps" if "FCFSSchedule ps = Inr out" for out
    using that by (auto simp: FCFSSchedule_def finish_def Let_def)
  have r: "processes_after out = ps" if "RRSchedule ps = Inr out" for out
    using that by (auto simp: RRSchedule_def finish_def Let_def split: sum.splits)
  have s: "processes_after out = sort_Slice pdq ps" if "SJFSchedule pdq ps = Inr out" for out
    using that SJF_run_after [of SJF_key pdq ps out] by (simp add: SJFSchedule_def)
  have p: "processes_after out = sort_Slice pdq ps"
    if "SJFPrioritySchedule impl pdq ps = Inr out" for out
    using that SJF_run_after [of "SJFPriority_key impl" pdq ps out]
    by (simp add: SJFPrioritySchedule_def)
  have m: "mset (sort_Slice pdq ps) = mset ps \<and>
      sorted (map (\<lambda>p. sint (ArrivalTime p)) (sort_Slice pdq ps)) \<and>
      (sorted (map (\<lambda>p. sint (ArrivalTime p)) ps) \<longrightarrow> sort_Slice pdq ps = ps)"
    if "length ps \<le> 12"
    using that by (simp add: sort_Slice_short sort_key_id_if_sorted)
  show ?thesis using f r s p m by blast
qed

theorem input_slice_after_call_witness:
  "(\<exists>out. FCFSSchedule
       [\<lparr>ProcessID = 1, ArrivalTime = 1, BurstDuration = 1, Priority = 0\<rparr>,
        \<lparr>ProcessID = 2, ArrivalTime = 0, BurstDuration = 1, Priority = 0\<rparr>] = Inr out \<and>
      processes_after out =
       [\<lparr>ProcessID = 1, ArrivalTime = 1, BurstDuration = 1, Priority = 0\<rparr>,
        \<lparr>ProcessID = 2, ArrivalTime = 0, BurstDuration = 1, Priority = 0\<rparr>]) \<and>
   (\<exists>out. RRSchedule
       [\<lparr>ProcessID = 1, ArrivalTime = 1, BurstDuration = 1, Priority = 0\<rparr>,
        \<lparr>ProcessID = 2, ArrivalTime = 0, BurstDuration = 1, Priority = 0\<rparr>] = Inr out \<and>
      processes_after out =
       [\<lparr>ProcessID = 1, ArrivalTime = 1, BurstDuration = 1, Priority = 0\<rparr>,
        \<lparr>ProcessID = 2, ArrivalTime = 0, BurstDuration = 1, Priority = 0\<rparr>]) \<and>
   (\<forall>pdq. \<exists>out. SJFSchedule pdq
       [\<lparr>ProcessID = 1, ArrivalTime = 1, BurstDuration = 1, Priority = 0\<rparr>,
        \<lparr>ProcessID = 2, ArrivalTime = 0, BurstDuration = 1, Priority = 0\<rparr>] = Inr out \<and>
      processes_after out =
       [\<lparr>ProcessID = 2, ArrivalTime = 0, BurstDuration = 1, Priority = 0\<rparr>,
        \<lparr>ProcessID = 1, ArrivalTime = 1, BurstDuration = 1, Priority = 0\<rparr>]) \<and>
   (\<forall>impl pdq. \<exists>out. SJFPrioritySchedule impl pdq
       [\<lparr>ProcessID = 1, ArrivalTime = 1, BurstDuration = 1, Priority = 0\<rparr>,
        \<lparr>ProcessID = 2, ArrivalTime = 0, BurstDuration = 1, Priority = 0\<rparr>] = Inr out \<and>
      processes_after out =
       [\<lparr>ProcessID = 2, ArrivalTime = 0, BurstDuration = 1, Priority = 0\<rparr>,
        \<lparr>ProcessID = 1, ArrivalTime = 1, BurstDuration = 1, Priority = 0\<rparr>]) \<and>
   (\<forall>pdq. sort_Slice pdq
       [\<lparr>ProcessID = 2, ArrivalTime = 0, BurstDuration = 1, Priority = 0\<rparr>,
        \<lparr>ProcessID = 1, ArrivalTime = 1, BurstDuration = 1, Priority = 0\<rparr>] =
       [\<lparr>ProcessID = 2, ArrivalTime = 0, BurstDuration = 1, Priority = 0\<rparr>,
        \<lparr>ProcessID = 1, ArrivalTime = 1, BurstDuration = 1, Priority = 0\<rparr>])"
proof -
  let ?p = "\<lparr>ProcessID = 1, ArrivalTime = 1, BurstDuration = 1, Priority = 0\<rparr>"
  let ?q = "\<lparr>ProcessID = 2, ArrivalTime = 0, BurstDuration = 1, Priority = 0\<rparr>"
  note t = input_slice_after_call [of "[?p, ?q]"]
  note u = input_slice_after_call [of "[?q, ?p]"]
  have f: "\<exists>out. FCFSSchedule [?p, ?q] = Inr out \<and> processes_after out = [?p, ?q]"
    using t [THEN conjunct1] by (simp add: FCFSSchedule_def)
  have r: "\<exists>out. RRSchedule [?p, ?q] = Inr out \<and> processes_after out = [?p, ?q]"
    using t [THEN conjunct2, THEN conjunct1] example_RR_unsorted by simp
  have srt: "sort_Slice pdq [?p, ?q] = [?q, ?p]" for pdq
    by code_simp
  have s: "\<exists>out. SJFSchedule pdq [?p, ?q] = Inr out \<and> processes_after out = [?q, ?p]" for pdq
    using t [of pdq, THEN conjunct2, THEN conjunct2, THEN conjunct1]
      example_SJF_unsorted [of SJF_key pdq]
    by (simp add: SJFSchedule_def srt)
  have p: "\<exists>out. SJFPrioritySchedule impl pdq [?p, ?q] = Inr out \<and>
                 processes_after out = [?q, ?p]" for impl pdq
    using t [of pdq impl, THEN conjunct2, THEN conjunct2, THEN conjunct2, THEN conjunct1]
      example_SJF_unsorted [of "SJFPriority_key impl" pdq]
    by (simp add: SJFPrioritySchedule_def srt)
  have k: "sort_Slice pdq [?q, ?p] = [?q, ?p]" for pdq
    using u [of pdq, THEN conjunct2, THEN conjunct2, THEN conjunct2, THEN conjunct2]
    by simp
  show ?thesis
    using f r s p k by blast
qed

theorem SJF_reorders_input_counterexample:
  "\<not> (\<exists>pdq out. SJFSchedule pdq
       [\<lparr>ProcessID = 1, ArrivalTime = 1, BurstDuration = 1, Priority = 0\<rparr>,
        \<lparr>ProcessID = 2, ArrivalTime = 0, BurstDuration = 1, Priority = 0\<rparr>] = Inr out \<and>
      processes_after out =
       [\<lparr>ProcessID = 1, ArrivalTime = 1, BurstDuration = 1, Priority = 0\<rparr>,
        \<lparr>ProcessID = 2, ArrivalTime = 0, BurstDuration = 1, Priority = 0\<rparr>])"
  using example_SJF_unsorted [of SJF_key] by (auto simp: SJFSchedule_def)

section \<open>The order of processes that arrive together\<close>

lemma arrival_eq_sint: "(sint (ArrivalTime p) = sint a) = (ArrivalTime p = a)"
  by (auto dest: signed_word_eqI)

text \<open>
  C5. \<open>SJFSchedule\<close> and \<open>SJFPrioritySchedule\<close> first sort the batch by arrival time with
  \<open>sort.Slice\<close>. For a batch of at most 12 processes this is the insertion sort, which is
  stable: the result is in ascending order of arrival, processes with the same arrival
  time keep their input order, and the schedule is that of the stably sorted batch.
\<close>

theorem sort_keeps_ties_on_short_batches:
  assumes "length ps \<le> 12"
  shows "sort_Slice pdq ps = sort_key (\<lambda>p. sint (ArrivalTime p)) ps \<and>
         sorted (map (\<lambda>p. sint (ArrivalTime p)) (sort_Slice pdq ps)) \<and>
         (\<forall>a. filter (\<lambda>p. ArrivalTime p = a) (sort_Slice pdq ps) =
               filter (\<lambda>p. ArrivalTime p = a) ps) \<and>
         SJFSchedule pdq ps = SJFSchedule pdq (sort_key (\<lambda>p. sint (ArrivalTime p)) ps) \<and>
         SJFPrioritySchedule impl pdq ps =
           SJFPrioritySchedule impl pdq (sort_key (\<lambda>p. sint (ArrivalTime p)) ps)"
proof -
  let ?f = "\<lambda>p. sint (ArrivalTime p)"
  have eq: "sort_Slice pdq ps = sort_key ?f ps"
    using assms by (rule sort_Slice_short)
  have st: "filter (\<lambda>p. ArrivalTime p = a) (sort_Slice pdq ps) =
            filter (\<lambda>p. ArrivalTime p = a) ps" for a
    using sort_key_stable [of ?f "sint a" ps] by (simp add: eq arrival_eq_sint)
  have "length (sort_key ?f ps) \<le> 12" using assms by simp
  then have "sort_Slice pdq (sort_key ?f ps) = sort_key ?f (sort_key ?f ps)"
    by (rule sort_Slice_short)
  also have "\<dots> = sort_key ?f ps"
    by (simp add: sort_key_id_if_sorted)
  finally have idem: "sort_Slice pdq (sort_key ?f ps) = sort_Slice pdq ps"
    using eq by simp
  have run: "SJF_run key pdq ps = SJF_run key pdq (sort_key ?f ps)" for key
    by (simp add: SJF_run_def idem)
  show ?thesis
    using eq st run by (simp add: SJFSchedule_def SJFPrioritySchedule_def)
qed

theorem sort_keeps_ties_witness:
  "length
     [\<lparr>ProcessID = 1, ArrivalTime = 1, BurstDuration = 1, Priority = 0\<rparr>,
      \<lparr>ProcessID = 2, ArrivalTime = 0, BurstDuration = 1, Priority = 0\<rparr>,
      \<lparr>ProcessID = 3, ArrivalTime = 1, BurstDuration = 1, Priority = 0\<rparr>] \<le> 12 \<and>
   (\<forall>pdq. sort_Slice pdq
     [\<lparr>ProcessID = 1, ArrivalTime = 1, BurstDuration = 1, Priority = 0\<rparr>,
      \<lparr>ProcessID = 2, ArrivalTime = 0, BurstDuration = 1, Priority = 0\<rparr>,
      \<lparr>ProcessID = 3, ArrivalTime = 1, BurstDuration = 1, Priority = 0\<rparr>] =
     [\<lparr>ProcessID = 2, ArrivalTime = 0, BurstDuration = 1, Priority = 0\<rparr>,
      \<lparr>ProcessID = 1, ArrivalTime = 1, BurstDuration = 1, Priority = 0\<rparr>,
      \<lparr>ProcessID = 3, ArrivalTime = 1, BurstDuration = 1, Priority = 0\<rparr>])"
proof -
  let ?ps = "[\<lparr>ProcessID = 1, ArrivalTime = 1, BurstDuration = 1, Priority = 0\<rparr>,
      \<lparr>ProcessID = 2, ArrivalTime = 0, BurstDuration = 1, Priority = 0\<rparr>,
      \<lparr>ProcessID = 3, ArrivalTime = 1, BurstDuration = 1, Priority = 0\<rparr>]"
  have h: "length ?ps \<le> 12" by simp
  have "sort_Slice pdq ?ps = sort_key (\<lambda>p. sint (ArrivalTime p)) ?ps" for pdq
    using sort_keeps_ties_on_short_batches [OF h, of pdq] by blast
  then show ?thesis by simp
qed

section \<open>A batch of 13 processes\<close>

text \<open>
  Twelve processes that arrive at time 1, in the order of their ids, followed by one that
  arrives at time 0. \<open>pdqsort_func\<close> takes the element in the middle (id 7) as the pivot,
  swaps it to the front, and swaps the second element (id 2) with the last one (id 13).
\<close>

definition thirteen :: "Process list" where
  "thirteen =
     map (\<lambda>i. \<lparr>ProcessID = i, ArrivalTime = 1, BurstDuration = 1, Priority = 0\<rparr>)
       [1, 2, 3, 4, 5, 6, 7, 8, 9, 10, 11, 12] @
     [\<lparr>ProcessID = 13, ArrivalTime = 0, BurstDuration = 1, Priority = 0\<rparr>]"

lemma thirteen_limit: "bits_Len (length thirteen) = 4"
  by code_simp

lemma thirteen_pivot: "choosePivot_func by_arrival thirteen 0 13 = (6, increasingHint)"
  by code_simp

lemma thirteen_not_sorted: "partialInsertionSort_func by_arrival thirteen 0 13 = (thirteen, False)"
  by code_simp

definition thirteen_partitioned :: "Process list" where
  "thirteen_partitioned =
     map (\<lambda>i. \<lparr>ProcessID = i, ArrivalTime = (if i = 13 then 0 else 1), BurstDuration = 1,
                 Priority = 0\<rparr>)
       [13, 7, 3, 4, 5, 6, 1, 8, 9, 10, 11, 12, 2]"

lemma thirteen_partition: "partition_func by_arrival thirteen 0 13 6 = (thirteen_partitioned, 1, False)"
  by code_simp

lemma thirteen_left: "insertionSort_func by_arrival thirteen_partitioned 0 1 = thirteen_partitioned"
  by code_simp

lemma thirteen_right: "insertionSort_func by_arrival thirteen_partitioned 2 13 = thirteen_partitioned"
  by code_simp

lemma pdqsort_short:
  "b - a \<le> 12 \<Longrightarrow>
   pdqsort_func random_Next lt data a b limit wasBalanced wasPartitioned =
   insertionSort_func lt data a b"
  by (subst pdqsort_func.simps) simp

lemma thirteen_pdqsort:
  "pdqsort_func random_Next by_arrival thirteen 0 13 4 True True = thirteen_partitioned"
proof -
  have prep: "pdqsort_prepare random_Next by_arrival thirteen 0 13 4 True True =
              (thirteen, 4, 6, False)"
    by (simp add: pdqsort_prepare_def thirteen_pivot thirteen_not_sorted)
  have left: "pdqsort_func random_Next by_arrival thirteen_partitioned 0 1 4 True True =
              thirteen_partitioned"
    using thirteen_left by (simp add: pdqsort_short)
  have right: "pdqsort_func random_Next by_arrival thirteen_partitioned 2 13 4 True False =
               thirteen_partitioned"
    using thirteen_right by (simp add: pdqsort_short)
  have two: "(1::nat) + 1 = 2" by simp
  have "pdqsort_func random_Next by_arrival thirteen 0 13 4 True True =
        pdqsort_func random_Next by_arrival
          (pdqsort_func random_Next by_arrival thirteen_partitioned 0 1 4 True True)
          (1 + 1) 13 4 True False"
    by (subst pdqsort_func.simps) (simp add: prep thirteen_partition del: One_nat_def)
  then show ?thesis
    unfolding left two using right by simp
qed

lemma thirteen_sort_Slice:
  "sort_Slice (sort_Slice_pdq random_Next) thirteen = thirteen_partitioned"
proof -
  have "length thirteen = 13" by (simp add: thirteen_def)
  then show ?thesis
    using thirteen_limit by (simp add: sort_Slice_def sort_Slice_pdq_def thirteen_pdqsort)
qed

text \<open>
  The counterexample of C5: after \<open>sort.Slice\<close> the processes that arrive at time 1 are no
  longer in their input order.
\<close>

theorem sort_reorders_ties_counterexample:
  "\<forall>random_Next.
     map ProcessID (filter (\<lambda>p. ArrivalTime p = 1)
       (sort_Slice (sort_Slice_pdq random_Next) thirteen)) =
       [7, 3, 4, 5, 6, 1, 8, 9, 10, 11, 12, 2] \<and>
     map ProcessID (filter (\<lambda>p. ArrivalTime p = 1) thirteen) =
       [1, 2, 3, 4, 5, 6, 7, 8, 9, 10, 11, 12]"
  by (simp add: thirteen_sort_Slice) (simp add: thirteen_def thirteen_partitioned_def)

end
